theory Spec2Isabelle
  imports Main "HOL-Library.Monad_Syntax"
begin

section \<open>Strings of the host language\<close>

text \<open>
  A TypeScript string is a sequence of UTF-16 code units; \<open>length\<close>, indexing and
  the regular expressions of the sources (none has the \<open>u\<close> flag) all work on code
  units. A code unit is modelled as a natural number, so that the Korean keywords and the
  symbols of the sources can be written down. \<open>js\<close> embeds an ASCII literal.
\<close>

type_synonym cu = nat
type_synonym jstring = "cu list"

definition js :: "string \<Rightarrow> jstring" where
  "js s = map of_char s"

definition isLineTerminator :: "cu \<Rightarrow> bool" where
  "isLineTerminator c \<longleftrightarrow> c = 10 \<or> c = 13 \<or> c = 8232 \<or> c = 8233"

text \<open>White space of \<open>trim()\<close> and of the class \<open>\s\<close>: the WhiteSpace and
  LineTerminator code points of ECMAScript.\<close>

definition isSpace :: "cu \<Rightarrow> bool" where
  "isSpace c \<longleftrightarrow>
     c = 9 \<or> c = 10 \<or> c = 11 \<or> c = 12 \<or> c = 13 \<or> c = 32 \<or> c = 160 \<or> c = 5760
     \<or> (8192 \<le> c \<and> c \<le> 8202) \<or> c = 8232 \<or> c = 8233 \<or> c = 8239 \<or> c = 8287
     \<or> c = 12288 \<or> c = 65279"

definition isDigit :: "cu \<Rightarrow> bool" where
  "isDigit c \<longleftrightarrow> 48 \<le> c \<and> c \<le> 57"

definition trimStart :: "jstring \<Rightarrow> jstring" where
  "trimStart s = dropWhile isSpace s"

definition trimEnd :: "jstring \<Rightarrow> jstring" where
  "trimEnd s = rev (dropWhile isSpace (rev s))"

definition trim :: "jstring \<Rightarrow> jstring" where
  "trim s = trimEnd (trimStart s)"

definition startsWith :: "jstring \<Rightarrow> jstring \<Rightarrow> bool" where
  "startsWith s p \<longleftrightarrow> take (length p) s = p"

definition endsWith :: "jstring \<Rightarrow> jstring \<Rightarrow> bool" where
  "endsWith s p \<longleftrightarrow> length p \<le> length s \<and> drop (length s - length p) s = p"

fun includes_str :: "jstring \<Rightarrow> jstring \<Rightarrow> bool" where
  "includes_str [] p = (p = [])"
| "includes_str (x # xs) p = (startsWith (x # xs) p \<or> includes_str xs p)"

text \<open>\<open>s.split(c)\<close> for a separator of one code unit: at least one piece, also for
  the empty string.\<close>

fun splitOn :: "cu \<Rightarrow> jstring \<Rightarrow> jstring list" where
  "splitOn sep [] = [[]]"
| "splitOn sep (x # xs) =
     (if x = sep then [] # splitOn sep xs
      else (case splitOn sep xs of [] \<Rightarrow> [[x]] | p # ps \<Rightarrow> (x # p) # ps))"

fun join :: "jstring \<Rightarrow> jstring list \<Rightarrow> jstring" where
  "join sep [] = []"
| "join sep [p] = p"
| "join sep (p # q # ps) = p @ sep @ join sep (q # ps)"

text \<open>\<open>s.slice(1, -1)\<close>: from index 1 up to, not including, the last code unit.\<close>

definition slice_1_m1 :: "jstring \<Rightarrow> jstring" where
  "slice_1_m1 s = take (length s - 1 - 1) (drop 1 s)"

text \<open>Decimal rendering of a non-negative integer, as a template literal does it.\<close>

fun digitsOf :: "nat \<Rightarrow> jstring" where
  "digitsOf n = (if n < 10 then [48 + n] else digitsOf (n div 10) @ [48 + n mod 10])"

declare digitsOf.simps [simp del]

section \<open>Regular expressions\<close>

text \<open>
  The patterns of the sources are written as terms of \<open>re\<close> and run by a backtracking
  matcher with the priorities of ECMAScript: the left alternative first, greedy
  quantifiers longest first, lazy ones shortest first, and an iteration of a quantifier
  past its minimum fails when it consumes nothing. The matcher state is the text before
  the current position (reversed), the text after it, and the captures so far. No pattern
  of the sources has a capture group under \<open>*\<close>, \<open>+\<close> or \<open>{m,n}\<close>, so the reset
  of captures at each iteration is not modelled; look-around occurs in the sources only
  as a negative test of the one neighbouring code unit.
\<close>

datatype re =
    Chr "cu \<Rightarrow> bool"
  | Eps
  | Bol bool
  | Eol bool
  | Seq re re
  | Alt re re
  | Rep bool nat "nat option" re
  | Grp nat re
  | NotBehind "cu \<Rightarrow> bool"
  | NotAhead "cu \<Rightarrow> bool"

type_synonym caps = "nat \<rightharpoonup> jstring"
type_synonym mstate = "jstring \<times> jstring \<times> caps"

fun rsize :: "re \<Rightarrow> nat" where
  "rsize (Seq a b) = Suc (rsize a + rsize b)"
| "rsize (Alt a b) = Suc (rsize a + rsize b)"
| "rsize (Rep g mn mx r) = Suc (rsize r + mn)"
| "rsize (Grp n r) = Suc (rsize r)"
| "rsize _ = 0"

fun dec_max :: "nat option \<Rightarrow> nat option" where
  "dec_max None = None"
| "dec_max (Some n) = Some (n - 1)"

text \<open>\<open>Bol m\<close> and \<open>Eol m\<close> are \<open>^\<close> and \<open>$\<close>, with \<open>m\<close> the multiline flag;
  \<open>Rep g mn mx r\<close> is \<open>r{mn,mx}\<close>, greedy when \<open>g\<close>.\<close>

function rmatch :: "re \<Rightarrow> mstate \<Rightarrow> (mstate \<Rightarrow> 'a option) \<Rightarrow> 'a option" where
  "rmatch (Chr p) (b, a, c) k =
     (case a of [] \<Rightarrow> None | x # xs \<Rightarrow> if p x then k (x # b, xs, c) else None)"
| "rmatch Eps st k = k st"
| "rmatch (Bol m) (b, a, c) k =
     (case b of [] \<Rightarrow> k (b, a, c)
      | x # _ \<Rightarrow> if m \<and> isLineTerminator x then k (b, a, c) else None)"
| "rmatch (Eol m) (b, a, c) k =
     (case a of [] \<Rightarrow> k (b, a, c)
      | x # _ \<Rightarrow> if m \<and> isLineTerminator x then k (b, a, c) else None)"
| "rmatch (Seq r1 r2) st k = rmatch r1 st (\<lambda>st'. rmatch r2 st' k)"
| "rmatch (Alt r1 r2) st k =
     (case rmatch r1 st k of Some x \<Rightarrow> Some x | None \<Rightarrow> rmatch r2 st k)"
| "rmatch (Rep g mn mx r) (b, a, c) k =
     (if mx = Some 0 then k (b, a, c)
      else if 0 < mn then
        rmatch r (b, a, c) (\<lambda>st'. rmatch (Rep g (mn - 1) (dec_max mx) r) st' k)
      else if g then
        (case rmatch r (b, a, c)
                (\<lambda>(b', a', c'). if length a' < length a
                                 then rmatch (Rep g 0 (dec_max mx) r) (b', a', c') k
                                 else None)
         of Some x \<Rightarrow> Some x | None \<Rightarrow> k (b, a, c))
      else
        (case k (b, a, c) of Some x \<Rightarrow> Some x
         | None \<Rightarrow>
            rmatch r (b, a, c)
                (\<lambda>(b', a', c'). if length a' < length a
                                 then rmatch (Rep g 0 (dec_max mx) r) (b', a', c') k
                                 else None)))"
| "rmatch (Grp n r) (b, a, c) k =
     rmatch r (b, a, c) (\<lambda>(b', a', c'). k (b', a', c'(n \<mapsto> take (length a - length a') a)))"
| "rmatch (NotBehind p) (b, a, c) k =
     (case b of [] \<Rightarrow> k (b, a, c) | x # _ \<Rightarrow> if p x then None else k (b, a, c))"
| "rmatch (NotAhead p) (b, a, c) k =
     (case a of [] \<Rightarrow> k (b, a, c) | x # _ \<Rightarrow> if p x then None else k (b, a, c))"
  by pat_completeness auto
termination
  by (relation "inv_image (less_than <*lex*> less_than) (\<lambda>(r, (b, a, c), k). (rsize r, length a))")
     auto

text \<open>A match: the text before it, the matched text, the text after it, the captures.\<close>

record rmatched =
  m_pre :: jstring
  m_text :: jstring
  m_post :: jstring
  m_caps :: caps

definition re_at :: "re \<Rightarrow> jstring \<Rightarrow> jstring \<Rightarrow> rmatched option" where
  "re_at r b a =
     rmatch r (b, a, Map.empty)
       (\<lambda>(b', a', c'). Some \<lparr>m_pre = rev b, m_text = take (length a - length a') a,
                              m_post = a', m_caps = c'\<rparr>)"

text \<open>The leftmost match at or after the current position (\<open>b\<close> reversed before it,
  \<open>a\<close> after it), as \<open>RegExp.prototype.exec\<close> finds it.\<close>

fun re_search :: "re \<Rightarrow> jstring \<Rightarrow> jstring \<Rightarrow> rmatched option" where
  "re_search r b [] = re_at r b []"
| "re_search r b (x # xs) =
     (case re_at r b (x # xs) of Some m \<Rightarrow> Some m | None \<Rightarrow> re_search r (x # b) xs)"

definition re_exec :: "re \<Rightarrow> jstring \<Rightarrow> rmatched option" where
  "re_exec r s = re_search r [] s"

definition re_test :: "re \<Rightarrow> jstring \<Rightarrow> bool" where
  "re_test r s \<longleftrightarrow> re_exec r s \<noteq> None"

text \<open>\<open>match[n]\<close> followed by a property access: a group that did not take part in the
  match is \<open>undefined\<close>, and the access raises a TypeError, which is \<open>None\<close>.\<close>

definition grp :: "rmatched \<Rightarrow> nat \<Rightarrow> jstring option" where
  "grp m n = m_caps m n"

text \<open>Pattern building blocks.\<close>

fun seq :: "re list \<Rightarrow> re" where
  "seq [] = Eps"
| "seq [r] = r"
| "seq (r # rs) = Seq r (seq rs)"

fun alts :: "re list \<Rightarrow> re" where
  "alts [] = Eps"
| "alts [r] = r"
| "alts (r # rs) = Alt r (alts rs)"

definition is_cu :: "cu \<Rightarrow> cu \<Rightarrow> bool" where
  "is_cu c x \<longleftrightarrow> x = c"

definition oneOf :: "jstring \<Rightarrow> cu \<Rightarrow> bool" where
  "oneOf cs x \<longleftrightarrow> x \<in> set cs"

definition dot :: "cu \<Rightarrow> bool" where
  "dot x \<longleftrightarrow> \<not> isLineTerminator x"

text \<open>Case folding of the \<open>i\<close> flag without the \<open>u\<close> flag. The pattern characters of
  the sources are ASCII, Hangul syllables and two check marks; for these, a code unit
  matches when it is the character or, for an ASCII letter, its other case.\<close>

definition canon :: "cu \<Rightarrow> cu" where
  "canon x = (if 97 \<le> x \<and> x \<le> 122 then x - 32 else x)"

definition is_ci :: "cu \<Rightarrow> cu \<Rightarrow> bool" where
  "is_ci c x \<longleftrightarrow> canon x = canon c"

fun lit :: "jstring \<Rightarrow> re" where
  "lit [] = Eps"
| "lit [c] = Chr (is_cu c)"
| "lit (c # cs) = Seq (Chr (is_cu c)) (lit cs)"

fun liti :: "jstring \<Rightarrow> re" where
  "liti [] = Eps"
| "liti [c] = Chr (is_ci c)"
| "liti (c # cs) = Seq (Chr (is_ci c)) (liti cs)"

abbreviation star :: "re \<Rightarrow> re" where
  "star r \<equiv> Rep True 0 None r"

abbreviation plus :: "re \<Rightarrow> re" where
  "plus r \<equiv> Rep True 1 None r"

abbreviation opt :: "re \<Rightarrow> re" where
  "opt r \<equiv> Rep True 0 (Some 1) r"

abbreviation star_lazy :: "re \<Rightarrow> re" where
  "star_lazy r \<equiv> Rep False 0 None r"

abbreviation plus_lazy :: "re \<Rightarrow> re" where
  "plus_lazy r \<equiv> Rep False 1 None r"

subsection \<open>What a successful match guarantees\<close>

text \<open>\<open>nonempty r\<close>: every match of \<open>r\<close> consumes a code unit; \<open>sets_grp r n\<close>:
  every match of \<open>r\<close> goes through group \<open>n\<close>. Both are read off the pattern.\<close>

fun nonempty :: "re \<Rightarrow> bool" where
  "nonempty (Chr p) = True"
| "nonempty (Seq a b) = (nonempty a \<or> nonempty b)"
| "nonempty (Alt a b) = (nonempty a \<and> nonempty b)"
| "nonempty (Rep g mn mx r) = (0 < mn \<and> mx \<noteq> Some 0 \<and> nonempty r)"
| "nonempty (Grp n r) = nonempty r"
| "nonempty _ = False"

fun sets_grp :: "re \<Rightarrow> nat \<Rightarrow> bool" where
  "sets_grp (Seq a b) n = (sets_grp a n \<or> sets_grp b n)"
| "sets_grp (Alt a b) n = (sets_grp a n \<and> sets_grp b n)"
| "sets_grp (Rep g mn mx r) n = (0 < mn \<and> mx \<noteq> Some 0 \<and> sets_grp r n)"
| "sets_grp (Grp m r) n = (m = n \<or> sets_grp r n)"
| "sets_grp _ n = False"

text \<open>\<open>sets_one r ns\<close>: every match of \<open>r\<close> goes through one of the groups \<open>ns\<close>;
  \<open>fills r n\<close>: whenever a match of \<open>r\<close> goes through group \<open>n\<close>, the group consumes a
  code unit.\<close>

fun sets_one :: "re \<Rightarrow> nat set \<Rightarrow> bool" where
  "sets_one (Seq a b) ns = (sets_one a ns \<or> sets_one b ns)"
| "sets_one (Alt a b) ns = (sets_one a ns \<and> sets_one b ns)"
| "sets_one (Rep g mn mx r) ns = (0 < mn \<and> mx \<noteq> Some 0 \<and> sets_one r ns)"
| "sets_one (Grp m r) ns = (m \<in> ns \<or> sets_one r ns)"
| "sets_one _ ns = False"

fun fills :: "re \<Rightarrow> nat \<Rightarrow> bool" where
  "fills (Seq a b) n = (fills a n \<and> fills b n)"
| "fills (Alt a b) n = (fills a n \<and> fills b n)"
| "fills (Rep g mn mx r) n = fills r n"
| "fills (Grp m r) n = ((m = n \<longrightarrow> nonempty r) \<and> fills r n)"
| "fills _ n = True"

definition reaches :: "re \<Rightarrow> mstate \<Rightarrow> mstate \<Rightarrow> bool" where
  "reaches r st st' =
     (case st of (b, a, c) \<Rightarrow> case st' of (b', a', c') \<Rightarrow>
        \<exists>m. a = m @ a' \<and> b' = rev m @ b \<and> dom c \<subseteq> dom c'
           \<and> (\<forall>n. sets_grp r n \<longrightarrow> n \<in> dom c') \<and> (nonempty r \<longrightarrow> m \<noteq> [])
           \<and> (\<forall>ns. sets_one r ns \<longrightarrow> (\<exists>n \<in> ns. n \<in> dom c'))
           \<and> (\<forall>n g. fills r n \<longrightarrow> c' n = Some g \<longrightarrow> c n = Some g \<or> g \<noteq> []))"

lemma reaches_refl:
  "\<not> nonempty r \<Longrightarrow> (\<forall>n. \<not> sets_grp r n) \<Longrightarrow> (\<forall>ns. \<not> sets_one r ns) \<Longrightarrow> reaches r st st"
  by (auto simp: reaches_def split: prod.splits)

lemma reaches_trans:
  assumes "reaches r1 st st1" "reaches r2 st1 st2"
    and "\<And>n. sets_grp r n \<Longrightarrow> sets_grp r1 n \<or> sets_grp r2 n"
    and "nonempty r \<Longrightarrow> nonempty r1 \<or> nonempty r2"
    and "\<And>ns. sets_one r ns \<Longrightarrow> sets_one r1 ns \<or> sets_one r2 ns"
    and "\<And>n. fills r n \<Longrightarrow> fills r1 n \<and> fills r2 n"
  shows "reaches r st st2"
proof -
  obtain b a c where st: "st = (b, a, c)" by (cases st)
  obtain b1 a1 c1 where st1: "st1 = (b1, a1, c1)" by (cases st1)
  obtain b2 a2 c2 where st2: "st2 = (b2, a2, c2)" by (cases st2)
  from assms(1) obtain m1 where 1: "a = m1 @ a1" "b1 = rev m1 @ b" "dom c \<subseteq> dom c1"
    "\<forall>n. sets_grp r1 n \<longrightarrow> n \<in> dom c1" "nonempty r1 \<longrightarrow> m1 \<noteq> []"
    "\<forall>ns. sets_one r1 ns \<longrightarrow> (\<exists>n \<in> ns. n \<in> dom c1)"
    "\<forall>n g. fills r1 n \<longrightarrow> c1 n = Some g \<longrightarrow> c n = Some g \<or> g \<noteq> []"
    unfolding reaches_def st st1 by auto
  from assms(2) obtain m2 where 2: "a1 = m2 @ a2" "b2 = rev m2 @ b1" "dom c1 \<subseteq> dom c2"
    "\<forall>n. sets_grp r2 n \<longrightarrow> n \<in> dom c2" "nonempty r2 \<longrightarrow> m2 \<noteq> []"
    "\<forall>ns. sets_one r2 ns \<longrightarrow> (\<exists>n \<in> ns. n \<in> dom c2)"
    "\<forall>n g. fills r2 n \<longrightarrow> c2 n = Some g \<longrightarrow> c1 n = Some g \<or> g \<noteq> []"
    unfolding reaches_def st1 st2 by auto
  have a: "a = (m1 @ m2) @ a2" "b2 = rev (m1 @ m2) @ b" using 1(1,2) 2(1,2) by simp_all
  have d: "dom c \<subseteq> dom c2" using 1(3) 2(3) by blast
  have g: "\<forall>n. sets_grp r n \<longrightarrow> n \<in> dom c2" using assms(3) 1(4) 2(3,4) by blast
  have ne: "nonempty r \<longrightarrow> m1 @ m2 \<noteq> []" using assms(4) 1(5) 2(5) by auto
  have o: "\<forall>ns. sets_one r ns \<longrightarrow> (\<exists>n \<in> ns. n \<in> dom c2)"
  proof (intro allI impI)
    fix ns assume "sets_one r ns"
    from assms(5)[OF this] show "\<exists>n \<in> ns. n \<in> dom c2"
    proof
      assume "sets_one r1 ns"
      with 1(6) obtain n where "n \<in> ns" "n \<in> dom c1" by blast
      with 2(3) show ?thesis by blast
    next
      assume "sets_one r2 ns"
      with 2(6) show ?thesis by blast
    qed
  qed
  have f: "\<forall>n g. fills r n \<longrightarrow> c2 n = Some g \<longrightarrow> c n = Some g \<or> g \<noteq> []"
  proof (intro allI impI)
    fix n g assume h: "fills r n" "c2 n = Some g"
    from assms(6)[OF h(1)] have ff: "fills r1 n" "fills r2 n" by simp_all
    from 2(7) ff(2) h(2) have "c1 n = Some g \<or> g \<noteq> []" by blast
    then show "c n = Some g \<or> g \<noteq> []" using 1(7) ff(1) by blast
  qed
  show ?thesis unfolding reaches_def st st2 using a d g ne o f by blast
qed

lemma reaches_weaken:
  "reaches r1 st st' \<Longrightarrow> (\<And>n. sets_grp r n \<Longrightarrow> sets_grp r1 n) \<Longrightarrow> (nonempty r \<Longrightarrow> nonempty r1)
   \<Longrightarrow> (\<And>ns. sets_one r ns \<Longrightarrow> sets_one r1 ns) \<Longrightarrow> (\<And>n. fills r n \<Longrightarrow> fills r1 n)
   \<Longrightarrow> reaches r st st'"
  unfolding reaches_def by (auto split: prod.splits)

lemma rmatch_sound:
  "rmatch r st k = Some x \<Longrightarrow> \<exists>st'. reaches r st st' \<and> k st' = Some x"
proof (induction r st k arbitrary: x rule: rmatch.induct)
  case (1 p b a c k)
  then obtain y ys where a: "a = y # ys" "p y" "k (y # b, ys, c) = Some x"
    by (auto split: list.splits if_splits)
  have "reaches (Chr p) (b, a, c) (y # b, ys, c)"
    unfolding reaches_def using a(1) by (auto intro: exI[of _ "[y]"])
  with a(3) show ?case by blast
next
  case (2 st k)
  then have "k st = Some x" by simp
  moreover have "reaches Eps st st" by (rule reaches_refl) auto
  ultimately show ?case by blast
next
  case (3 m b a c k)
  then have "k (b, a, c) = Some x" by (auto split: list.splits if_splits)
  moreover have "reaches (Bol m) (b, a, c) (b, a, c)" by (rule reaches_refl) auto
  ultimately show ?case by blast
next
  case (4 m b a c k)
  then have "k (b, a, c) = Some x" by (auto split: list.splits if_splits)
  moreover have "reaches (Eol m) (b, a, c) (b, a, c)" by (rule reaches_refl) auto
  ultimately show ?case by blast
next
  case (5 r1 r2 st k)
  from 5(3) have "rmatch r1 st (\<lambda>st'. rmatch r2 st' k) = Some x" by simp
  from 5(2)[OF this] obtain st1 where a: "reaches r1 st st1" "rmatch r2 st1 k = Some x" by blast
  from 5(1)[OF a(2)] obtain st2 where b: "reaches r2 st1 st2" "k st2 = Some x" by blast
  have "reaches (Seq r1 r2) st st2" by (rule reaches_trans[OF a(1) b(1)]) auto
  with b show ?case by blast
next
  case (6 r1 r2 st k)
  show ?case
  proof (cases "rmatch r1 st k")
    case None
    with 6(3) have "rmatch r2 st k = Some x" by simp
    from 6(2)[OF None this] obtain st' where a: "reaches r2 st st'" "k st' = Some x" by blast
    have "reaches (Alt r1 r2) st st'" by (rule reaches_weaken[OF a(1)]) auto
    with a(2) show ?thesis by blast
  next
    case (Some y)
    with 6(3) have "rmatch r1 st k = Some x" by simp
    from 6(1)[OF this] obtain st' where a: "reaches r1 st st'" "k st' = Some x" by blast
    have "reaches (Alt r1 r2) st st'" by (rule reaches_weaken[OF a(1)]) auto
    with a(2) show ?thesis by blast
  qed
next
  case (7 g mn mx r b a c k)
  show ?case
  proof (cases "mx = Some 0")
    case True
    with 7(7) have "k (b, a, c) = Some x" by simp
    moreover have "reaches (Rep g mn mx r) (b, a, c) (b, a, c)"
      using True by (intro reaches_refl) auto
    ultimately show ?thesis by blast
  next
    case F: False
    show ?thesis
    proof (cases "0 < mn")
      case True
      with F 7(7) have "rmatch r (b, a, c) (\<lambda>st'. rmatch (Rep g (mn - 1) (dec_max mx) r) st' k) = Some x"
        by simp
      from 7(2)[OF F True this] obtain st1 where
        a: "reaches r (b, a, c) st1" "rmatch (Rep g (mn - 1) (dec_max mx) r) st1 k = Some x" by blast
      from 7(1)[OF F True a(2)] obtain st2 where
        b: "reaches (Rep g (mn - 1) (dec_max mx) r) st1 st2" "k st2 = Some x" by blast
      have "reaches (Rep g mn mx r) (b, a, c) st2"
        by (rule reaches_trans[OF a(1) b(1)]) auto
      with b show ?thesis by blast
    next
      case Z: False
      have nz: "\<not> nonempty (Rep g mn mx r)" "\<And>n. \<not> sets_grp (Rep g mn mx r) n"
        "\<And>ns. \<not> sets_one (Rep g mn mx r) ns" using Z by auto
      let ?k = "\<lambda>(b', a', c'). if length a' < length a
                                 then rmatch (Rep g 0 (dec_max mx) r) (b', a', c') k
                                 else None"
      have iter: "\<exists>st'. reaches (Rep g mn mx r) (b, a, c) st' \<and> k st' = Some x"
        if h: "rmatch r (b, a, c) ?k = Some x"
           and ih1: "\<And>x. rmatch r (b, a, c) ?k = Some x \<Longrightarrow> \<exists>st'. reaches r (b, a, c) st' \<and> ?k st' = Some x"
           and ih2: "\<And>b' a' c' x. length a' < length a \<Longrightarrow> rmatch (Rep g 0 (dec_max mx) r) (b', a', c') k = Some x
                       \<Longrightarrow> \<exists>st'. reaches (Rep g 0 (dec_max mx) r) (b', a', c') st' \<and> k st' = Some x"
      proof -
        from ih1[OF h] obtain st1 where a0: "reaches r (b, a, c) st1" "?k st1 = Some x"
          by blast
        obtain b1 a1 c1 where st1: "st1 = (b1, a1, c1)" by (cases st1)
        from a0 have a: "reaches r (b, a, c) (b1, a1, c1)" "?k (b1, a1, c1) = Some x"
          unfolding st1 by blast+
        then have l: "length a1 < length a" and m: "rmatch (Rep g 0 (dec_max mx) r) (b1, a1, c1) k = Some x"
          by (auto split: if_splits)
        from ih2[OF l m] obtain st2 where b: "reaches (Rep g 0 (dec_max mx) r) (b1, a1, c1) st2" "k st2 = Some x"
          by blast
        have "reaches (Rep g mn mx r) (b, a, c) st2"
          by (rule reaches_trans[OF a(1) b(1)]) (use nz in auto)
        with b show ?thesis by blast
      qed
      have stop: "\<exists>st'. reaches (Rep g mn mx r) (b, a, c) st' \<and> k st' = Some x" if "k (b, a, c) = Some x"
        using that reaches_refl[of "Rep g mn mx r" "(b, a, c)"] nz by blast
      show ?thesis
      proof (cases g)
        case True
        have e: "rmatch (Rep g mn mx r) (b, a, c) k =
            (case rmatch r (b, a, c) ?k of Some x \<Rightarrow> Some x | None \<Rightarrow> k (b, a, c))"
          using F Z unfolding Eq_TrueI[OF True] by simp
        from 7(7) have e': "(case rmatch r (b, a, c) ?k of Some x \<Rightarrow> Some x | None \<Rightarrow> k (b, a, c)) = Some x"
          unfolding e .
        show ?thesis
        proof (cases "rmatch r (b, a, c) ?k")
          case None
          with e' have "k (b, a, c) = Some x" by simp
          then show ?thesis by (rule stop)
        next
          case (Some y)
          with e' have h: "rmatch r (b, a, c) ?k = Some x" by simp
          show ?thesis
            apply (rule iter[OF h])
             apply (rule 7(4)[OF F Z True]) apply assumption
            apply (rule 7(3)[OF F Z True]) apply assumption+
            done
        qed
      next
        case G: False
        have e: "rmatch (Rep g mn mx r) (b, a, c) k =
            (case k (b, a, c) of Some x \<Rightarrow> Some x | None \<Rightarrow> rmatch r (b, a, c) ?k)"
          using F Z unfolding Eq_FalseI[OF G] by simp
        from 7(7) have e': "(case k (b, a, c) of Some x \<Rightarrow> Some x | None \<Rightarrow> rmatch r (b, a, c) ?k) = Some x"
          unfolding e .
        show ?thesis
        proof (cases "k (b, a, c)")
          case None
          with e' have h: "rmatch r (b, a, c) ?k = Some x" by simp
          show ?thesis
            apply (rule iter[OF h])
             apply (rule 7(6)[OF F Z G None]) apply assumption
            apply (rule 7(5)[OF F Z G None]) apply assumption+
            done
        next
          case (Some y)
          with e' have "k (b, a, c) = Some x" by simp
          then show ?thesis by (rule stop)
        qed
      qed
    qed
  qed
next
  case (8 n r b a c k)
  from 8(2) have "rmatch r (b, a, c) (\<lambda>(b', a', c'). k (b', a', c'(n \<mapsto> take (length a - length a') a))) = Some x"
    by simp
  from 8(1)[OF this] obtain st1 where
    a0: "reaches r (b, a, c) st1"
        "(\<lambda>(b', a', c'). k (b', a', c'(n \<mapsto> take (length a - length a') a))) st1 = Some x"
    by blast
  obtain b1 a1 c1 where st1: "st1 = (b1, a1, c1)" by (cases st1)
  from a0 have a: "reaches r (b, a, c) (b1, a1, c1)" "k (b1, a1, c1(n \<mapsto> take (length a - length a1) a)) = Some x"
    unfolding st1 by simp_all
  have "reaches (Grp n r) (b, a, c) (b1, a1, c1(n \<mapsto> take (length a - length a1) a))"
  proof -
    from a(1) obtain t where t: "a = t @ a1" "b1 = rev t @ b" "dom c \<subseteq> dom c1"
      "\<forall>n. sets_grp r n \<longrightarrow> n \<in> dom c1" "nonempty r \<longrightarrow> t \<noteq> []"
      "\<forall>ns. sets_one r ns \<longrightarrow> (\<exists>n \<in> ns. n \<in> dom c1)"
      "\<forall>n g. fills r n \<longrightarrow> c1 n = Some g \<longrightarrow> c n = Some g \<or> g \<noteq> []"
      unfolding reaches_def by auto
    have tk: "take (length a - length a1) a = t" using t(1) by simp
    let ?c = "c1(n \<mapsto> t)"
    have d: "dom c \<subseteq> dom ?c" using t(3) by auto
    have g: "\<forall>k. sets_grp (Grp n r) k \<longrightarrow> k \<in> dom ?c" using t(4) by auto
    have ne: "nonempty (Grp n r) \<longrightarrow> t \<noteq> []" using t(5) by simp
    have o: "\<forall>ns. sets_one (Grp n r) ns \<longrightarrow> (\<exists>k \<in> ns. k \<in> dom ?c)"
    proof (intro allI impI)
      fix ns assume h: "sets_one (Grp n r) ns"
      show "\<exists>k \<in> ns. k \<in> dom ?c"
      proof (cases "n \<in> ns")
        case True
        then show ?thesis by auto
      next
        case False
        with h have "sets_one r ns" by simp
        with t(6) obtain k where "k \<in> ns" "k \<in> dom c1" by blast
        then show ?thesis by auto
      qed
    qed
    have f: "\<forall>k g. fills (Grp n r) k \<longrightarrow> ?c k = Some g \<longrightarrow> c k = Some g \<or> g \<noteq> []"
    proof (intro allI impI)
      fix k g assume h: "fills (Grp n r) k" "?c k = Some g"
      show "c k = Some g \<or> g \<noteq> []"
      proof (cases "k = n")
        case True
        with h t(5) show ?thesis by auto
      next
        case False
        with h have "fills r k" "c1 k = Some g" by simp_all
        with t(7) show ?thesis by blast
      qed
    qed
    show ?thesis unfolding reaches_def tk prod.case using t(1,2) d g ne o f by blast
  qed
  with a(2) show ?case by blast
next
  case (9 p b a c k)
  then have "k (b, a, c) = Some x" by (auto split: list.splits if_splits)
  moreover have "reaches (NotBehind p) (b, a, c) (b, a, c)" by (rule reaches_refl) auto
  ultimately show ?case by blast
next
  case (10 p b a c k)
  then have "k (b, a, c) = Some x" by (auto split: list.splits if_splits)
  moreover have "reaches (NotAhead p) (b, a, c) (b, a, c)" by (rule reaches_refl) auto
  ultimately show ?case by blast
qed

text \<open>The equation of the quantifier unfolds without end on a text that is not a
  literal; it is used by name.\<close>

declare rmatch.simps(7) [simp del]

lemma re_at_sound:
  assumes "re_at r b a = Some m"
  shows "a = m_text m @ m_post m \<and> m_pre m = rev b
         \<and> (\<forall>n. sets_grp r n \<longrightarrow> grp m n \<noteq> None) \<and> (nonempty r \<longrightarrow> m_text m \<noteq> [])
         \<and> (\<forall>ns. sets_one r ns \<longrightarrow> (\<exists>n \<in> ns. grp m n \<noteq> None))
         \<and> (\<forall>n. fills r n \<longrightarrow> grp m n \<noteq> Some [])"
proof -
  let ?k = "\<lambda>(b', a', c'). Some \<lparr>m_pre = rev b, m_text = take (length a - length a') a,
                              m_post = a', m_caps = c'\<rparr>"
  from assms have "rmatch r (b, a, Map.empty) ?k = Some m" by (simp add: re_at_def)
  from rmatch_sound[OF this] obtain st' where s: "reaches r (b, a, Map.empty) st'" "?k st' = Some m"
    by blast
  obtain b' a' c' where st': "st' = (b', a', c')" by (cases st')
  from s(2) have m: "m = \<lparr>m_pre = rev b, m_text = take (length a - length a') a,
                              m_post = a', m_caps = c'\<rparr>"
    unfolding st' by simp
  from s(1) obtain t where t: "a = t @ a'" "\<forall>n. sets_grp r n \<longrightarrow> n \<in> dom c'" "nonempty r \<longrightarrow> t \<noteq> []"
    "\<forall>ns. sets_one r ns \<longrightarrow> (\<exists>n \<in> ns. n \<in> dom c')"
    "\<forall>n g. fills r n \<longrightarrow> c' n = Some g \<longrightarrow> g \<noteq> []"
    unfolding st' reaches_def by auto
  have "\<forall>ns. sets_one r ns \<longrightarrow> (\<exists>n \<in> ns. grp m n \<noteq> None)"
    using t(4) unfolding m by (auto simp: grp_def dom_def)
  moreover have "\<forall>n. fills r n \<longrightarrow> grp m n \<noteq> Some []"
    using t(5) unfolding m by (auto simp: grp_def)
  ultimately show ?thesis using t(1,2,3) unfolding m by (auto simp: grp_def)
qed

lemma re_search_sound:
  "re_search r b a = Some m \<Longrightarrow>
     (\<exists>sk. a = sk @ m_text m @ m_post m \<and> m_pre m = rev b @ sk)
     \<and> (\<forall>n. sets_grp r n \<longrightarrow> grp m n \<noteq> None) \<and> (nonempty r \<longrightarrow> m_text m \<noteq> [])"
proof (induction a arbitrary: b)
  case Nil
  then have "re_at r b [] = Some m" by simp
  from re_at_sound[OF this] show ?case by auto
next
  case (Cons x xs)
  show ?case
  proof (cases "re_at r b (x # xs)")
    case None
    with Cons.prems have "re_search r (x # b) xs = Some m" by simp
    from Cons.IH[OF this] obtain sk where
      "xs = sk @ m_text m @ m_post m" "m_pre m = rev (x # b) @ sk"
      and rest: "\<forall>n. sets_grp r n \<longrightarrow> grp m n \<noteq> None" "nonempty r \<longrightarrow> m_text m \<noteq> []"
      by blast
    then have "x # xs = (x # sk) @ m_text m @ m_post m \<and> m_pre m = rev b @ (x # sk)" by simp
    with rest show ?thesis by blast
  next
    case (Some m')
    with Cons.prems have "re_at r b (x # xs) = Some m" by simp
    from re_at_sound[OF this] have
      "x # xs = [] @ m_text m @ m_post m \<and> m_pre m = rev b @ []"
      and rest: "\<forall>n. sets_grp r n \<longrightarrow> grp m n \<noteq> None" "nonempty r \<longrightarrow> m_text m \<noteq> []"
      by auto
    then show ?thesis by blast
  qed
qed

lemma re_search_post_le: "re_search r b a = Some m \<Longrightarrow> length (m_post m) \<le> length a"
  using re_search_sound[of r b a m] by auto

lemma re_search_post_less:
  "re_search r b a = Some m \<Longrightarrow> m_text m \<noteq> [] \<Longrightarrow> length (m_post m) < length a"
  using re_search_sound[of r b a m] by auto

lemma re_at_post_less:
  "re_at r b a = Some m \<Longrightarrow> m_text m \<noteq> [] \<Longrightarrow> length (m_post m) < length a"
  using re_at_sound[of r b a m] by auto

lemma re_at_post_eq:
  "re_at r b a = Some m \<Longrightarrow> m_text m = [] \<Longrightarrow> m_post m = a"
  using re_at_sound[of r b a m] by auto

lemma re_search_is_at: "re_search r b a = Some m \<Longrightarrow> \<exists>b' a'. re_at r b' a' = Some m"
  by (induction a arbitrary: b) (auto split: option.splits)

lemma re_search_groups:
  assumes "re_search r b a = Some m"
  shows "(\<forall>ns. sets_one r ns \<longrightarrow> (\<exists>n \<in> ns. grp m n \<noteq> None))
         \<and> (\<forall>n. fills r n \<longrightarrow> grp m n \<noteq> Some [])"
proof -
  from re_search_is_at[OF assms] obtain b' a' where "re_at r b' a' = Some m" by blast
  from re_at_sound[OF this] show ?thesis by blast
qed

subsection \<open>The operations of String and RegExp built on a match\<close>

text \<open>\<open>s.replace(r, repl)\<close> without the \<open>g\<close> flag: the first match only.\<close>

definition re_replace :: "re \<Rightarrow> jstring \<Rightarrow> jstring \<Rightarrow> jstring" where
  "re_replace r repl s =
     (case re_exec r s of None \<Rightarrow> s | Some m \<Rightarrow> m_pre m @ repl @ m_post m)"

text \<open>\<open>s.replace(r, repl)\<close> with the \<open>g\<close> flag: every match, from left to right; after
  an empty match the search moves on by one code unit, which is copied.\<close>

function replace_loop :: "re \<Rightarrow> jstring \<Rightarrow> jstring \<Rightarrow> jstring \<Rightarrow> jstring" where
  "replace_loop r repl b a =
     (case re_search r b a of
        None \<Rightarrow> a
      | Some m \<Rightarrow>
          (let skipped = drop (length b) (m_pre m);
               b' = rev (m_text m) @ rev (m_pre m)
           in if m_text m \<noteq> [] then skipped @ repl @ replace_loop r repl b' (m_post m)
              else (case m_post m of
                      [] \<Rightarrow> skipped @ repl
                    | x # xs \<Rightarrow> skipped @ repl @ [x] @ replace_loop r repl (x # b') xs)))"
  by pat_completeness auto
termination
proof (relation "measure (\<lambda>(r, repl, b, a). length a)", goal_cases)
  case 1
  show ?case by simp
next
  case (2 r repl b a m sk b')
  then show ?case using re_search_post_less[of r b a m] by simp
next
  case (3 r repl b a m sk b' x xs)
  then show ?case using re_search_post_le[of r b a m] by simp
qed

declare replace_loop.simps [simp del]

definition re_replace_all :: "re \<Rightarrow> jstring \<Rightarrow> jstring \<Rightarrow> jstring" where
  "re_replace_all r repl s = replace_loop r repl [] s"

text \<open>The loop \<open>while ((match = r.exec(s)) !== null)\<close> over a pattern with the \<open>g\<close>
  flag: \<open>lastIndex\<close> moves to the end of each match. An empty match leaves it where it
  is, and the loop then never ends: that is \<open>None\<close>.\<close>

function exec_loop :: "re \<Rightarrow> jstring \<Rightarrow> jstring \<Rightarrow> rmatched list option" where
  "exec_loop r b a =
     (case re_search r b a of
        None \<Rightarrow> Some []
      | Some m \<Rightarrow>
          if m_text m = [] then None
          else map_option ((#) m) (exec_loop r (rev (m_text m) @ rev (m_pre m)) (m_post m)))"
  by pat_completeness auto
termination
proof (relation "measure (\<lambda>(r, b, a). length a)", goal_cases)
  case 1
  show ?case by simp
next
  case (2 r b a m)
  then show ?case using re_search_post_less[of r b a m] by simp
qed

declare exec_loop.simps [simp del]

definition re_exec_all :: "re \<Rightarrow> jstring \<Rightarrow> rmatched list option" where
  "re_exec_all r s = exec_loop r [] s"

text \<open>\<open>s.split(r)\<close> for a pattern without capture groups (the split patterns of the
  sources have none): \<open>pc\<close> is the piece since the last separator, reversed; a match
  that is empty and lies at the start of the piece is passed over.\<close>

function split_loop :: "re \<Rightarrow> jstring \<Rightarrow> jstring \<Rightarrow> jstring \<Rightarrow> jstring list" where
  "split_loop r b pc [] = [rev pc]"
| "split_loop r b pc (x # xs) =
     (case re_at r b (x # xs) of
        None \<Rightarrow> split_loop r (x # b) (x # pc) xs
      | Some m \<Rightarrow>
          if m_text m = [] \<and> pc = [] then split_loop r (x # b) (x # pc) xs
          else rev pc # split_loop r (rev (m_text m) @ b) [] (m_post m))"
  by pat_completeness auto
termination
proof (relation "measures [\<lambda>(r, b, pc, a). length a, \<lambda>(r, b, pc, a). length pc]", goal_cases)
  case 1
  show ?case by simp
next
  case (2 r b pc x xs)
  show ?case by simp
next
  case (3 r b pc x xs m)
  show ?case by simp
next
  case (4 r b pc x xs m)
  show ?case
  proof (cases "m_text m = []")
    case True
    with 4 re_at_post_eq[of r b "x # xs" m] show ?thesis by auto
  next
    case False
    with 4 re_at_post_less[of r b "x # xs" m] show ?thesis by auto
  qed
qed

definition re_split :: "re \<Rightarrow> jstring \<Rightarrow> jstring list" where
  "re_split r s =
     (if s = [] then (if re_at r [] [] \<noteq> None then [] else [[]])
      else split_loop r [] [] s)"

section \<open>SheetsConverter\<close>




text \<open>\<open>cell.replace(/\|/g, '\\|')\<close>\<close>

definition escapePipes :: "jstring \<Rightarrow> jstring" where
  "escapePipes cell = re_replace_all (Chr (is_cu 124)) [92, 124] cell"

text \<open>\<open>`| ${cells.join(' | ')} |`\<close>\<close>

definition tableLine :: "jstring list \<Rightarrow> jstring" where
  "tableLine cells = js ''| '' @ join (js '' | '') cells @ js '' |''"





definition separatorCells :: "nat \<Rightarrow> jstring list" where
  "separatorCells maxCols = replicate maxCols (js ''---'')"

text \<open>The \<open>cells\<close> arrays in the order in which their lines are pushed: the cells of
  row \<open>i\<close>, and after row 0 those of the separator.\<close>

fun emitRows :: "('r \<Rightarrow> jstring list) \<Rightarrow> jstring list \<Rightarrow> nat \<Rightarrow> 'r list \<Rightarrow> jstring list list" where
  "emitRows cellsOf sep i [] = []"
| "emitRows cellsOf sep i (row # rows) =
     cellsOf row # (if i = 0 then [sep] else []) @ emitRows cellsOf sep (Suc i) rows"



text \<open>\<open>Math.max(...data.map(row => row.length))\<close>, for a grid with at least one row.\<close>

definition arrayMaxCols :: "jstring list list \<Rightarrow> nat" where
  "arrayMaxCols data = foldl max 0 (map length data)"

text \<open>\<open>row[j] || ''\<close>, then the escape.\<close>

definition arrayCells :: "nat \<Rightarrow> jstring list \<Rightarrow> jstring list" where
  "arrayCells maxCols row =
     map (\<lambda>j. escapePipes (if j < length row then row ! j else [])) [0..<maxCols]"

definition arrayEmitted :: "jstring list list \<Rightarrow> jstring list list" where
  "arrayEmitted data =
     (let maxCols = arrayMaxCols data
      in emitRows (arrayCells maxCols) (separatorCells maxCols) 0 data)"

definition arrayToMarkdownTable :: "jstring list list \<Rightarrow> jstring" where
  "arrayToMarkdownTable data =
     (if data = [] then [] else join [10] (map tableLine (arrayEmitted data)))"

text \<open>\<open>/^\|[\s\-:|]+\|$/\<close>\<close>

definition separatorRe :: re where
  "separatorRe =
     seq [Bol False, Chr (is_cu 124), plus (Chr (\<lambda>x. isSpace x \<or> oneOf (js ''-:|'') x)),
          Chr (is_cu 124), Eol False]"

text \<open>\<open>.slice(1, -1).split('|').map(cell => cell.trim().replace(/\\\|/g, '|'))\<close>\<close>

definition parseCellsUnescaped :: "jstring \<Rightarrow> jstring list" where
  "parseCellsUnescaped trimmedLine =
     map (\<lambda>cell. re_replace_all (lit [92, 124]) [124] (trim cell))
       (splitOn 124 (slice_1_m1 trimmedLine))"

fun mdRows :: "jstring list \<Rightarrow> jstring list list" where
  "mdRows [] = []"
| "mdRows (line # ls) =
     (let trimmedLine = trim line
      in if \<not> startsWith trimmedLine [124] \<or> \<not> endsWith trimmedLine [124] then mdRows ls
         else if re_test separatorRe trimmedLine then mdRows ls
         else parseCellsUnescaped trimmedLine # mdRows ls)"

definition markdownTableToArray :: "jstring \<Rightarrow> jstring list list" where
  "markdownTableToArray markdownTable =
     mdRows (filter (\<lambda>line. trim line \<noteq> []) (splitOn 10 markdownTable))"

subsection \<open>Evaluation on concrete inputs\<close>

text \<open>The equations that unfold the string and pattern operations on a literal.\<close>

lemmas str_ev = js_def is_cu_def is_ci_def canon_def oneOf_def dot_def isSpace_def isDigit_def
  isLineTerminator_def trim_def trimStart_def trimEnd_def startsWith_def endsWith_def
  slice_1_m1_def re_at_def re_exec_def re_test_def re_replace_def re_replace_all_def
  re_exec_all_def re_split_def grp_def replace_loop.simps exec_loop.simps rmatch.simps(7)

subsection \<open>The emitted cells\<close>

lemma emitRows_Suc: "emitRows f sep (Suc i) rs = map f rs"
  by (induction rs arbitrary: i) auto

lemma emitRows_0: "emitRows f sep 0 (r # rs) = f r # sep # map f rs"
  by (simp add: emitRows_Suc)

lemma foldl_max_Max: "foldl max (a::nat) xs = Max (set (a # xs))"
proof (induction xs arbitrary: a)
  case Nil
  show ?case by simp
next
  case (Cons x xs)
  have "foldl max a (x # xs) = Max (set (max a x # xs))" using Cons by simp
  also have "\<dots> = Max (set (a # x # xs))"
    by (cases "xs = []") (auto simp: max.assoc)
  finally show ?case .
qed

lemma arrayMaxCols_Max: "data \<noteq> [] \<Longrightarrow> arrayMaxCols data = Max (length ` set data)"
proof -
  assume ne: "data \<noteq> []"
  have "arrayMaxCols data = Max (insert 0 (length ` set data))"
    by (simp add: arrayMaxCols_def foldl_max_Max)
  also have "\<dots> = max 0 (Max (length ` set data))"
    using ne by (intro Max_insert) auto
  finally show ?thesis by simp
qed


section \<open>NoteAnalyzer\<close>

text \<open>
  Functions that read a capture group (\<open>match[1].trim()\<close>) or loop on \<open>exec\<close> return an
  option: \<open>None\<close> stands for a TypeError on an \<open>undefined\<close> group or for a loop that never
  ends, the only ways in which this code can fail to return. A \<open>for\<close> loop over
  \<open>lines\<close> is a recursion over the list, so \<open>lines[i]\<close> is always an element.
  \<open>String.prototype.toLowerCase\<close> and \<open>parseFloat\<close> are parameters (\<open>lower\<close>,
  \<open>parseFloat\<close>; a result \<open>None\<close> of the latter is NaN).
\<close>

subsection \<open>Title and word count\<close>

definition h1Re :: re where
  "h1Re = seq [Bol True, Chr (is_cu 35), plus (Chr isSpace), Grp 1 (plus (Chr dot)), Eol True]"

definition yamlTitleRe :: re where
  "yamlTitleRe =
     seq [Bol True, lit (js ''title:''), star (Chr isSpace), Grp 1 (plus (Chr dot)), Eol True]"

definition quotesRe :: re where
  "quotesRe = Alt (Seq (Bol False) (Chr (oneOf [34, 39]))) (Seq (Chr (oneOf [34, 39])) (Eol False))"

definition mdExtRe :: re where
  "mdExtRe = seq [lit (js ''.md''), Eol False]"

definition extractTitle :: "jstring \<Rightarrow> jstring \<Rightarrow> jstring option" where
  "extractTitle content fileName =
     (case re_exec h1Re content of
        Some h1Match \<Rightarrow> do { g \<leftarrow> grp h1Match 1; Some (trim g) }
      | None \<Rightarrow>
         (case re_exec yamlTitleRe content of
            Some yamlTitleMatch \<Rightarrow>
              do { g \<leftarrow> grp yamlTitleMatch 1; Some (re_replace_all quotesRe [] (trim g)) }
          | None \<Rightarrow> Some (re_replace mdExtRe [] fileName)))"

text \<open>\<open>/^---[\s\S]*?---\n?/\<close>\<close>

definition frontmatterRe :: re where
  "frontmatterRe =
     seq [Bol False, lit (js ''---''), star_lazy (Chr (\<lambda>x. True)), lit (js ''---''),
          opt (Chr (is_cu 10))]"

definition countWords :: "jstring \<Rightarrow> nat" where
  "countWords content =
     (let cleaned = re_replace frontmatterRe [] content
      in length (filter (\<lambda>w. length w > 0) (re_split (plus (Chr isSpace)) cleaned)))"

subsection \<open>Docs analysis\<close>

datatype ContentType = ct_article | ct_report | ct_notes | ct_letter | ct_general

record Heading =
  h_level :: nat
  h_text :: jstring

record DocsAnalysis =
  d_suggestedTitle :: jstring
  d_headings :: "Heading list"
  d_paragraphCount :: nat
  d_hasImages :: bool
  d_hasLinks :: bool
  d_hasTables :: bool
  d_estimatedPages :: nat
  d_contentType :: ContentType
  d_summary :: jstring

text \<open>\<open>/^(#{1,6})\s+(.+)$/gm\<close>\<close>

definition headingGmRe :: re where
  "headingGmRe =
     seq [Bol True, Grp 1 (Rep True 1 (Some 6) (Chr (is_cu 35))), plus (Chr isSpace),
          Grp 2 (plus (Chr dot)), Eol True]"

definition headingOf :: "rmatched \<Rightarrow> Heading option" where
  "headingOf m = do { g1 \<leftarrow> grp m 1; g2 \<leftarrow> grp m 2; Some \<lparr>h_level = length g1, h_text = trim g2\<rparr> }"

definition extractHeadings :: "jstring \<Rightarrow> Heading list option" where
  "extractHeadings content = do { ms \<leftarrow> re_exec_all headingGmRe content; those (map headingOf ms) }"

definition countParagraphs :: "jstring \<Rightarrow> nat" where
  "countParagraphs content =
     (let cleaned = re_replace frontmatterRe [] content;
          blocks = filter (\<lambda>b. let trimmed = trim b
                               in length trimmed > 0 \<and> \<not> startsWith trimmed (js ''#'')
                                  \<and> \<not> startsWith trimmed (js ''|'') \<and> \<not> startsWith trimmed (js ''-''))
                     (re_split (seq [Chr (is_cu 10), plus (Chr (is_cu 10))]) cleaned)
      in length blocks)"

text \<open>\<open>Math.max(1, Math.ceil(wordCount / 250))\<close>; the quotient of a count below
  \<open>2^53\<close> by 250 is rounded by less than its distance to an integer, so the ceiling of the
  double is the ceiling of the quotient.\<close>

definition estimatedPagesOf :: "nat \<Rightarrow> nat" where
  "estimatedPagesOf wordCount = max 1 ((wordCount + 249) div 250)"

definition generateDocsSummary :: "Heading list \<Rightarrow> nat \<Rightarrow> nat \<Rightarrow> jstring" where
  "generateDocsSummary headings paragraphCount wordCount =
     join (js '' | '')
       ([digitsOf wordCount @ js '' words, ~'' @ digitsOf (estimatedPagesOf wordCount) @ js '' pages'']
        @ (if length headings > 0 then [digitsOf (length headings) @ js '' sections''] else [])
        @ [digitsOf paragraphCount @ js '' paragraphs''])"

text \<open>\<open>/^(abstract|introduction|conclusion|references)/im\<close> and
  \<open>/^(dear|sincerely|regards)/im\<close>\<close>

definition reportRe :: re where
  "reportRe =
     seq [Bol True, Grp 1 (alts [liti (js ''abstract''), liti (js ''introduction''),
                                 liti (js ''conclusion''), liti (js ''references'')])]"

definition letterRe :: re where
  "letterRe =
     seq [Bol True, Grp 1 (alts [liti (js ''dear''), liti (js ''sincerely''), liti (js ''regards'')])]"

text \<open>The four assignments to \<open>contentType\<close>, in the order of the source.\<close>

definition classifyContent :: "nat \<Rightarrow> nat \<Rightarrow> jstring \<Rightarrow> ContentType" where
  "classifyContent nHeadings paragraphCount content =
     (let contentType = ct_general;
          contentType = (if nHeadings \<ge> 3 \<and> paragraphCount \<ge> 5 then ct_article else contentType);
          contentType = (if re_test reportRe content then ct_report else contentType);
          contentType = (if re_test letterRe content then ct_letter else contentType);
          contentType = (if nHeadings \<le> 2 \<and> paragraphCount \<le> 3 then ct_notes else contentType)
      in contentType)"

text \<open>\<open>/!\[.*?\]\(.*?\)/\<close>, \<open>/\[.*?\]\(.*?\)/\<close> and \<open>/\|.*\|.*\|/\<close>\<close>

definition linksRe :: re where
  "linksRe =
     seq [Chr (is_cu 91), star_lazy (Chr dot), Chr (is_cu 93), Chr (is_cu 40), star_lazy (Chr dot),
          Chr (is_cu 41)]"

definition imagesRe :: re where
  "imagesRe = Seq (Chr (is_cu 33)) linksRe"

definition tablesRe :: re where
  "tablesRe =
     seq [Chr (is_cu 124), star (Chr dot), Chr (is_cu 124), star (Chr dot), Chr (is_cu 124)]"

definition analyzeDocs :: "jstring \<Rightarrow> jstring \<Rightarrow> DocsAnalysis option" where
  "analyzeDocs content title =
     do {
       headings \<leftarrow> extractHeadings content;
       let paragraphCount = countParagraphs content;
       let wordCount = countWords content;
       let contentType = classifyContent (length headings) paragraphCount content;
       let summary = generateDocsSummary headings paragraphCount wordCount;
       Some \<lparr>d_suggestedTitle = title, d_headings = headings, d_paragraphCount = paragraphCount,
             d_hasImages = re_test imagesRe content, d_hasLinks = re_test linksRe content,
             d_hasTables = re_test tablesRe content, d_estimatedPages = estimatedPagesOf wordCount,
             d_contentType = contentType, d_summary = summary\<rparr>
     }"

subsection \<open>Sheets analysis\<close>

datatype ChartType = chart_bar | chart_line | chart_pie | chart_table | chart_none

record ExtractedTable =
  t_headers :: "jstring list"
  t_rows :: "jstring list list"
  t_startLine :: int

record ExtractedList =
  l_title :: jstring
  l_items :: "jstring list"
  l_isNumbered :: bool

record 'n NumericDatum =
  n_label :: jstring
  n_value :: 'n

record 'n SheetsAnalysis =
  s_tables :: "ExtractedTable list"
  s_lists :: "ExtractedList list"
  s_numericalData :: "'n NumericDatum list"
  s_suggestedChartType :: ChartType
  s_hasTabulableContent :: bool

text \<open>The variables of the loop of \<open>extractTables\<close>.\<close>

record TableScan =
  tables :: "ExtractedTable list"
  currentHeaders :: "jstring list"
  currentRows :: "jstring list list"
  startLine :: int
  inTable :: bool

definition isTableRow :: "jstring \<Rightarrow> bool" where
  "isTableRow ln \<longleftrightarrow> startsWith ln (js ''|'') \<and> endsWith ln (js ''|'')"

text \<open>\<open>line.slice(1, -1).split('|').map(c => c.trim())\<close>\<close>

definition rowCells :: "jstring \<Rightarrow> jstring list" where
  "rowCells ln = map trim (splitOn 124 (slice_1_m1 ln))"

definition pushTable :: "TableScan \<Rightarrow> ExtractedTable list" where
  "pushTable st =
     tables st @ [\<lparr>t_headers = currentHeaders st, t_rows = currentRows st,
                   t_startLine = startLine st\<rparr>]"

text \<open>One iteration of the loop, for the line \<open>lines[i]\<close>.\<close>

definition tableStep :: "TableScan \<Rightarrow> nat \<Rightarrow> jstring \<Rightarrow> TableScan" where
  "tableStep st i raw =
     (let ln = trim raw
      in if isTableRow ln then
           (if re_test separatorRe ln then st
            else (let cells = rowCells ln
                  in if \<not> inTable st
                     then st\<lparr>currentHeaders := cells, startLine := int i, inTable := True\<rparr>
                     else st\<lparr>currentRows := currentRows st @ [cells]\<rparr>))
         else if inTable st \<and> length (currentHeaders st) > 0
           then st\<lparr>tables := pushTable st, currentHeaders := [], currentRows := [],
                   inTable := False\<rparr>
           else st)"

fun tableLoop :: "TableScan \<Rightarrow> nat \<Rightarrow> jstring list \<Rightarrow> TableScan" where
  "tableLoop st i [] = st"
| "tableLoop st i (raw # rest) = tableLoop (tableStep st i raw) (Suc i) rest"

definition tableScan0 :: TableScan where
  "tableScan0 = \<lparr>tables = [], currentHeaders = [], currentRows = [], startLine = - 1,
                  inTable = False\<rparr>"

definition extractTables :: "jstring \<Rightarrow> ExtractedTable list" where
  "extractTables content =
     (let st = tableLoop tableScan0 0 (splitOn 10 content)
      in if inTable st \<and> length (currentHeaders st) > 0 then pushTable st else tables st)"

text \<open>\<open>/^[\-\*]\s+(.+)$/\<close> and \<open>/^\d+\.\s+(.+)$/\<close>\<close>

definition ulRe :: re where
  "ulRe = seq [Bol False, Chr (oneOf (js ''-*'')), plus (Chr isSpace), Grp 1 (plus (Chr dot)), Eol False]"

definition olRe :: re where
  "olRe =
     seq [Bol False, plus (Chr isDigit), Chr (is_cu 46), plus (Chr isSpace), Grp 1 (plus (Chr dot)),
          Eol False]"

text \<open>\<open>prevLine.replace(/^#{1,6}\s+/, '').replace(/:$/, '')\<close>\<close>

definition titleOfLine :: "jstring \<Rightarrow> jstring" where
  "titleOfLine prevLine =
     re_replace (seq [Chr (is_cu 58), Eol False]) []
       (re_replace (seq [Bol False, Rep True 1 (Some 6) (Chr (is_cu 35)), plus (Chr isSpace)]) []
          prevLine)"

text \<open>The scan \<open>for (j = i - 1; j >= 0; j--)\<close> for the nearest non-blank line above;
  \<open>prev\<close> holds the lines above line \<open>i\<close>, nearest first. When there is none,
  \<open>currentTitle\<close> keeps its value.\<close>

fun findTitle :: "jstring list \<Rightarrow> jstring \<Rightarrow> jstring" where
  "findTitle [] currentTitle = currentTitle"
| "findTitle (l # prev) currentTitle =
     (let prevLine = trim l in if prevLine \<noteq> [] then titleOfLine prevLine else findTitle prev currentTitle)"

record ListScan =
  lists :: "ExtractedList list"
  currentItems :: "jstring list"
  currentTitle :: jstring
  isNumbered :: bool
  inList :: bool

definition pushList :: "ListScan \<Rightarrow> ExtractedList list" where
  "pushList st =
     lists st @ [\<lparr>l_title = currentTitle st, l_items = currentItems st,
                  l_isNumbered = isNumbered st\<rparr>]"

fun listLoop :: "ListScan \<Rightarrow> jstring list \<Rightarrow> jstring list \<Rightarrow> ListScan option" where
  "listLoop st prev [] = Some st"
| "listLoop st prev (ln # rest) =
     (let ulMatch = re_exec ulRe ln; olMatch = re_exec olRe ln
      in case (case ulMatch of Some m \<Rightarrow> Some m | None \<Rightarrow> olMatch) of
           Some m \<Rightarrow>
             do {
               let st1 = (if \<not> inList st
                          then st\<lparr>currentTitle := findTitle prev (currentTitle st),
                                  isNumbered := (olMatch \<noteq> None), inList := True\<rparr>
                          else st);
               g \<leftarrow> grp m 1;
               listLoop (st1\<lparr>currentItems := currentItems st1 @ [g]\<rparr>) (ln # prev) rest
             }
         | None \<Rightarrow>
             listLoop (if inList st \<and> length (currentItems st) > 0
                       then st\<lparr>lists := pushList st, currentItems := [], currentTitle := [],
                               inList := False\<rparr>
                       else st) (ln # prev) rest)"

definition listScan0 :: ListScan where
  "listScan0 = \<lparr>lists = [], currentItems = [], currentTitle = [], isNumbered = False,
                 inList = False\<rparr>"

definition extractLists :: "jstring \<Rightarrow> ExtractedList list option" where
  "extractLists content =
     do {
       st \<leftarrow> listLoop listScan0 [] (splitOn 10 content);
       Some (if inList st \<and> length (currentItems st) > 0 then pushList st else lists st)
     }"

text \<open>\<open>/^[\-\*]?\s*(.+?)[\s]*[:=\-\<dots>]\s*([\d,]+\.?\d*)\s*(%|\<dots>)?$/\<close>: the separators
  are colon, equals sign, hyphen, en dash and em dash; the units are the percent sign and
  five Korean counters.\<close>

definition numRe :: re where
  "numRe =
     seq [Bol False, opt (Chr (oneOf (js ''-*''))), star (Chr isSpace), Grp 1 (plus_lazy (Chr dot)),
          star (Chr isSpace), Chr (oneOf [58, 61, 45, 8211, 8212]), star (Chr isSpace),
          Grp 2 (seq [plus (Chr (\<lambda>x. isDigit x \<or> x = 44)), opt (Chr (is_cu 46)), star (Chr isDigit)]),
          star (Chr isSpace),
          opt (Grp 3 (alts [lit (js ''%''), lit [47749], lit [44060], lit [50896],
                            lit [45804, 47084], lit [44148]])),
          Eol False]"

fun numLoop :: "(jstring \<Rightarrow> 'n option) \<Rightarrow> jstring list \<Rightarrow> 'n NumericDatum list option" where
  "numLoop parseFloat [] = Some []"
| "numLoop parseFloat (ln # rest) =
     (case re_exec numRe ln of
        Some m \<Rightarrow>
          do {
            g1 \<leftarrow> grp m 1;
            g2 \<leftarrow> grp m 2;
            let label = trim g1;
            let v = parseFloat (re_replace_all (Chr (is_cu 44)) [] g2);
            more \<leftarrow> numLoop parseFloat rest;
            Some (case v of
                    Some x \<Rightarrow> if length label > 0 \<and> length label < 50
                              then \<lparr>n_label = label, n_value = x\<rparr> # more else more
                  | None \<Rightarrow> more)
          }
      | None \<Rightarrow> numLoop parseFloat rest)"

definition extractNumericalData :: "(jstring \<Rightarrow> 'n option) \<Rightarrow> jstring \<Rightarrow> 'n NumericDatum list option" where
  "extractNumericalData parseFloat content = numLoop parseFloat (splitOn 10 content)"

text \<open>\<open>tables[0].rows\<close> is read only behind \<open>tables.length > 0\<close>; on an empty array it
  would be a TypeError.\<close>

definition firstTableRows :: "ExtractedTable list \<Rightarrow> nat option" where
  "firstTableRows ts = (case ts of [] \<Rightarrow> None | t # _ \<Rightarrow> Some (length (t_rows t)))"

definition analyzeSheets :: "(jstring \<Rightarrow> 'n option) \<Rightarrow> jstring \<Rightarrow> 'n SheetsAnalysis option" where
  "analyzeSheets parseFloat content =
     do {
       let tbls = extractTables content;
       lsts \<leftarrow> extractLists content;
       numericalData \<leftarrow> extractNumericalData parseFloat content;
       let chart = (if length numericalData \<ge> 2
                    then (if length numericalData \<le> 6 then chart_pie else chart_bar)
                    else chart_none);
       chart2 \<leftarrow> (if length tbls > 0
                  then do { n \<leftarrow> firstTableRows tbls; Some (if n > 5 then chart_bar else chart) }
                  else Some chart);
       Some \<lparr>s_tables = tbls, s_lists = lsts, s_numericalData = numericalData,
             s_suggestedChartType = chart2,
             s_hasTabulableContent =
               (length tbls > 0 \<or> length lsts > 0 \<or> length numericalData > 0)\<rparr>
     }"

subsection \<open>Slides analysis\<close>

datatype Layout = layout_title | layout_title_body | layout_two_column | layout_image_text
  | layout_blank

datatype Theme = professional | academic | creative | minimal

record SlideProposal =
  sp_title :: jstring
  sp_bulletPoints :: "jstring list"
  sp_layout :: Layout
  sp_speakerNotes :: jstring

record SlidesAnalysis =
  sl_suggestedTitle :: jstring
  sl_slides :: "SlideProposal list"
  sl_estimatedDuration :: jstring
  sl_theme :: Theme

record Section =
  heading :: jstring
  content :: jstring

text \<open>\<open>/^(#{1,3})\s+(.+)$/\<close>\<close>

definition sectionHeadingRe :: re where
  "sectionHeadingRe =
     seq [Bol False, Grp 1 (Rep True 1 (Some 3) (Chr (is_cu 35))), plus (Chr isSpace),
          Grp 2 (plus (Chr dot)), Eol False]"

text \<open>\<open>if (currentHeading || currentContent.length > 0) sections.push(\<dots>)\<close>\<close>

definition flushSection :: "Section list \<Rightarrow> jstring \<Rightarrow> jstring list \<Rightarrow> Section list" where
  "flushSection sections currentHeading currentContent =
     (if currentHeading \<noteq> [] \<or> length currentContent > 0
      then sections @ [\<lparr>heading = currentHeading, content = join [10] currentContent\<rparr>]
      else sections)"

fun sectionLoop :: "Section list \<Rightarrow> jstring \<Rightarrow> jstring list \<Rightarrow> jstring list \<Rightarrow> Section list option" where
  "sectionLoop sections currentHeading currentContent [] =
     Some (flushSection sections currentHeading currentContent)"
| "sectionLoop sections currentHeading currentContent (ln # rest) =
     (case re_exec sectionHeadingRe ln of
        Some headingMatch \<Rightarrow>
          do {
            g \<leftarrow> grp headingMatch 2;
            sectionLoop (flushSection sections currentHeading currentContent) (trim g) [] rest
          }
      | None \<Rightarrow> sectionLoop sections currentHeading (currentContent @ [ln]) rest)"

text \<open>The filter \<open>s => s.heading && s.content.trim().length > 0\<close>.\<close>

definition keepSection :: "Section \<Rightarrow> bool" where
  "keepSection s \<longleftrightarrow> heading s \<noteq> [] \<and> length (trim (content s)) > 0"

definition allSections :: "jstring \<Rightarrow> Section list option" where
  "allSections text = sectionLoop [] [] [] (splitOn 10 text)"

definition splitIntoSections :: "jstring \<Rightarrow> Section list option" where
  "splitIntoSections text = do { sections \<leftarrow> allSections text; Some (filter keepSection sections) }"

text \<open>\<open>/[.!?]\s+/\<close>\<close>

definition sentenceRe :: re where
  "sentenceRe = seq [Chr (oneOf (js ''.!?'')), plus (Chr isSpace)]"

fun bulletLoop :: "jstring list \<Rightarrow> jstring list option" where
  "bulletLoop [] = Some []"
| "bulletLoop (ln # rest) =
     (case (case re_exec ulRe ln of Some m \<Rightarrow> Some m | None \<Rightarrow> re_exec olRe ln) of
        Some m \<Rightarrow> do { g \<leftarrow> grp m 1; more \<leftarrow> bulletLoop rest; Some (trim g # more) }
      | None \<Rightarrow> bulletLoop rest)"

definition extractBulletPoints :: "jstring \<Rightarrow> jstring list option" where
  "extractBulletPoints text =
     do {
       bullets \<leftarrow> bulletLoop (splitOn 10 text);
       Some (if length bullets = 0
             then map trim (take 4 (filter (\<lambda>s. length (trim s) > 10 \<and> length (trim s) < 120)
                                      (re_split sentenceRe text)))
             else bullets)
     }"

text \<open>\<open>/^[\-\*]\s+.+$/gm\<close> and \<open>/^\d+\.\s+.+$/gm\<close>\<close>

definition ulLineRe :: re where
  "ulLineRe = seq [Bol True, Chr (oneOf (js ''-*'')), plus (Chr isSpace), plus (Chr dot), Eol True]"

definition olLineRe :: re where
  "olLineRe =
     seq [Bol True, plus (Chr isDigit), Chr (is_cu 46), plus (Chr isSpace), plus (Chr dot), Eol True]"

definition generateSpeakerNotes :: "jstring \<Rightarrow> jstring" where
  "generateSpeakerNotes text =
     (let cleaned = trim (re_replace_all olLineRe [] (re_replace_all ulLineRe [] text));
          sentences = filter (\<lambda>s. length (trim s) > 10) (re_split sentenceRe cleaned)
      in trim (join (js ''. '') (take 2 sentences)))"

text \<open>\<open>/^(abstract|introduction|methodology|results|conclusion|references)/im\<close>\<close>

definition academicRe :: re where
  "academicRe =
     seq [Bol True, Grp 1 (alts [liti (js ''abstract''), liti (js ''introduction''),
                                 liti (js ''methodology''), liti (js ''results''),
                                 liti (js ''conclusion''), liti (js ''references'')])]"

fun sectionSlides :: "Section list \<Rightarrow> SlideProposal list option" where
  "sectionSlides [] = Some []"
| "sectionSlides (s # ss) =
     do {
       bullets \<leftarrow> extractBulletPoints (content s);
       more \<leftarrow> sectionSlides ss;
       Some (\<lparr>sp_title = heading s, sp_bulletPoints = take 6 bullets,
              sp_layout = (if length bullets > 0 then layout_title_body else layout_title),
              sp_speakerNotes = generateSpeakerNotes (content s)\<rparr> # more)
     }"

text \<open>\<open>Math.max(1, Math.ceil(slideCount * 1.5))\<close>: the product is exact.\<close>

definition minutesOf :: "nat \<Rightarrow> nat" where
  "minutesOf slideCount = max 1 ((3 * slideCount + 1) div 2)"

definition analyzeSlides :: "jstring \<Rightarrow> jstring \<Rightarrow> SlidesAnalysis option" where
  "analyzeSlides text title =
     do {
       headings \<leftarrow> extractHeadings text;
       sections \<leftarrow> splitIntoSections text;
       more \<leftarrow> sectionSlides sections;
       let slides = \<lparr>sp_title = title, sp_bulletPoints = [], sp_layout = layout_title,
                     sp_speakerNotes = js ''Introduction''\<rparr> # more;
       let theme = (if re_test academicRe text then academic else professional);
       Some \<lparr>sl_suggestedTitle = title, sl_slides = slides,
             sl_estimatedDuration = js ''~'' @ digitsOf (minutesOf (length slides)) @ js '' min'',
             sl_theme = theme\<rparr>
     }"

subsection \<open>Forms analysis\<close>

datatype QuestionType = multiple_choice | checkbox | short_answer | paragraph_answer | scale
  | dropdown

datatype FormType = form_quiz | form_survey | form_feedback | form_registration | form_general

text \<open>\<open>points\<close> is never assigned by the analyzer and is left out.\<close>

record DetectedQuestion =
  q_text :: jstring
  q_type :: QuestionType
  q_options :: "jstring list"
  q_required :: bool
  q_correctAnswer :: "jstring option"

record FormsAnalysis =
  f_formType :: FormType
  f_suggestedTitle :: jstring
  f_description :: jstring
  f_questions :: "DetectedQuestion list"
  f_hasAnswerKey :: bool
  f_isQuizLikely :: bool
  f_isSurveyLikely :: bool

text \<open>\<open>/^[a-eA-E][.)]\s*(.+)/\<close>, \<open>/^[\-\*]\s*\[[ xX]?\]\s*(.+)/\<close>; the bullet pattern is
  \<open>ulRe\<close>.\<close>

definition letterOptRe :: re where
  "letterOptRe =
     seq [Bol False, Chr (oneOf (js ''abcdeABCDE'')), Chr (oneOf (js ''.)'')), star (Chr isSpace),
          Grp 1 (plus (Chr dot))]"

definition checkOptRe :: re where
  "checkOptRe =
     seq [Bol False, Chr (oneOf (js ''-*'')), star (Chr isSpace), Chr (is_cu 91),
          opt (Chr (oneOf (js '' xX''))), Chr (is_cu 93), star (Chr isSpace), Grp 1 (plus (Chr dot))]"

text \<open>The loop of \<open>collectOptions\<close> over the window \<open>lines[startIndex .. startIndex + 14]\<close>;
  a result ends the loop where the source has \<open>break\<close>.\<close>

fun collectLoop :: "jstring list \<Rightarrow> jstring list \<Rightarrow> jstring list option" where
  "collectLoop options [] = Some options"
| "collectLoop options (l # rest) =
     (let optLine = trim l
      in case re_exec letterOptRe optLine of
           Some letterMatch \<Rightarrow> do { g \<leftarrow> grp letterMatch 1; collectLoop (options @ [trim g]) rest }
         | None \<Rightarrow>
            (case re_exec checkOptRe optLine of
               Some checkMatch \<Rightarrow> do { g \<leftarrow> grp checkMatch 1; collectLoop (options @ [trim g]) rest }
             | None \<Rightarrow>
                (case (if length options < 10 then re_exec ulRe optLine else None) of
                   Some bulletMatch \<Rightarrow>
                     do {
                       g \<leftarrow> grp bulletMatch 1;
                       let text = trim g;
                       collectLoop (if length text < 80 then options @ [text] else options) rest
                     }
                 | None \<Rightarrow>
                     if optLine = [] \<and> length options > 0 then Some options
                     else if \<not> startsWith optLine (js ''-'') \<and> \<not> startsWith optLine (js ''*'')
                             \<and> length optLine > 0 \<and> length options > 0 then Some options
                     else collectLoop options rest)))"

definition collectOptions :: "jstring list \<Rightarrow> nat \<Rightarrow> jstring list option" where
  "collectOptions lines startIndex = collectLoop [] (take 15 (drop startIndex lines))"

text \<open>\<open>/\[x\]/i\<close>, \<open>/\[x\]\s*(.+)/i\<close>, \<open>/\<dots>|\<dots>|correct|\<dots>/i\<close> (two check marks and a
  Korean word), \<open>/[\<dots>]|(correct|\<dots>)/gi\<close> and \<open>/^[\-\*a-eA-E.)\s]+/\<close>.\<close>

definition xMarkRe :: re where
  "xMarkRe = liti (js ''[x]'')"

definition xMarkTextRe :: re where
  "xMarkTextRe = seq [liti (js ''[x]''), star (Chr isSpace), Grp 1 (plus (Chr dot))]"

definition correctRe :: re where
  "correctRe = alts [liti [10003], liti [9989], liti (js ''correct''), liti [51221, 45813]]"

definition correctWordRe :: re where
  "correctWordRe =
     Alt (Chr (\<lambda>x. is_ci 10003 x \<or> is_ci 9989 x))
         (Grp 1 (Alt (liti (js ''correct'')) (liti [51221, 45813])))"

definition markerPrefixRe :: re where
  "markerPrefixRe = seq [Bol False, plus (Chr (\<lambda>x. oneOf (js ''-*abcdeABCDE.)'') x \<or> isSpace x))]"

text \<open>The result is \<open>Some None\<close> for \<open>null\<close>.\<close>

fun correctLoop :: "jstring list \<Rightarrow> jstring option option" where
  "correctLoop [] = Some None"
| "correctLoop (l # rest) =
     (let ln = trim l
      in if re_test xMarkRe ln then
           (case re_exec xMarkTextRe ln of
              Some m \<Rightarrow> do { g \<leftarrow> grp m 1; Some (Some (trim g)) }
            | None \<Rightarrow> Some None)
         else if re_test correctRe ln then
           (let cleaned = trim (re_replace markerPrefixRe [] (re_replace_all correctWordRe [] ln))
            in Some (if cleaned \<noteq> [] then Some cleaned else None))
         else correctLoop rest)"

definition detectCorrectOption :: "jstring list \<Rightarrow> nat \<Rightarrow> jstring option option" where
  "detectCorrectOption lines startIndex = correctLoop (take 15 (drop startIndex lines))"

text \<open>\<open>/^[\-\*\d.#]+\s*/\<close>\<close>

definition markerRe :: re where
  "markerRe =
     seq [Bol False, plus (Chr (\<lambda>x. oneOf (js ''-*'') x \<or> isDigit x \<or> oneOf (js ''.#'') x)),
          star (Chr isSpace)]"

definition stripMarker :: "jstring \<Rightarrow> jstring" where
  "stripMarker ln = re_replace markerRe [] ln"

text \<open>\<open>/^(?:Q\d*|Question\s*\d*|\<dots>\s*\d*)[:.)]\s*(.+)/i\<close>; the third alternative is the
  Korean word for question.\<close>

definition qPrefixRe :: re where
  "qPrefixRe =
     seq [Bol False,
          alts [seq [liti (js ''Q''), star (Chr isDigit)],
                seq [liti (js ''Question''), star (Chr isSpace), star (Chr isDigit)],
                seq [liti [51656, 47928], star (Chr isSpace), star (Chr isDigit)]],
          Chr (oneOf (js '':.)'')), star (Chr isSpace), Grp 1 (plus (Chr dot))]"

text \<open>Pattern 1: a line ending in a question mark. \<open>ln\<close> is the trimmed line \<open>i\<close>,
  \<open>lines\<close> the whole array.\<close>

definition pass1 :: "jstring list \<Rightarrow> nat \<Rightarrow> jstring \<Rightarrow> DetectedQuestion list option" where
  "pass1 lines i ln =
     (if endsWith ln (js ''?'') \<and> length ln > 5 then
        do {
          let questionText = trim (stripMarker ln);
          options \<leftarrow> collectOptions lines (i + 1);
          correctAnswer \<leftarrow> detectCorrectOption lines (i + 1);
          let type = (if length options \<ge> 2
                      then (if length options \<le> 5 then multiple_choice else dropdown)
                      else short_answer);
          Some [\<lparr>q_text = questionText, q_type = type, q_options = options, q_required = True,
                 q_correctAnswer = (case correctAnswer of Some (x # xs) \<Rightarrow> Some (x # xs) | _ \<Rightarrow> None)\<rparr>]
        }
      else Some [])"

text \<open>Pattern 2: the \<open>Q:\<close> prefix, guarded by \<open>!line.endsWith('?')\<close>.\<close>

definition pass2 :: "jstring list \<Rightarrow> nat \<Rightarrow> jstring \<Rightarrow> DetectedQuestion list option" where
  "pass2 lines i ln =
     (case re_exec qPrefixRe ln of
        Some qPrefixMatch \<Rightarrow>
          if \<not> endsWith ln (js ''?'') then
            do {
              g \<leftarrow> grp qPrefixMatch 1;
              let questionText = trim g;
              options \<leftarrow> collectOptions lines (i + 1);
              Some [\<lparr>q_text = questionText,
                     q_type = (if length options \<ge> 2 then multiple_choice else short_answer),
                     q_options = options, q_required = True, q_correctAnswer = None\<rparr>]
            }
          else Some []
      | None \<Rightarrow> Some [])"

text \<open>Pattern 3: \<open>/rate|scale|\<dots>|\<dots>/i.test(line) && /\d/.test(line)\<close>.\<close>

definition rateRe :: re where
  "rateRe = alts [liti (js ''rate''), liti (js ''scale''), liti [54217, 44032], liti [52377, 46020]]"

definition pass3 :: "jstring \<Rightarrow> DetectedQuestion list" where
  "pass3 ln =
     (if re_test rateRe ln \<and> re_test (Chr isDigit) ln
      then [\<lparr>q_text = trim (stripMarker ln), q_type = scale, q_options = [], q_required = True,
              q_correctAnswer = None\<rparr>]
      else [])"

text \<open>Pattern 4: \<open>/^(?:describe|explain|elaborate|\<dots>|\<dots>)/i\<close> on the line without its
  marker.\<close>

definition describeRe :: re where
  "describeRe =
     seq [Bol False, alts [liti (js ''describe''), liti (js ''explain''), liti (js ''elaborate''),
                           liti [49436, 49696], liti [49444, 47749]]]"

definition pass4 :: "jstring \<Rightarrow> DetectedQuestion list" where
  "pass4 ln =
     (if re_test describeRe (stripMarker ln)
      then [\<lparr>q_text = trim (stripMarker ln), q_type = paragraph_answer, q_options = [],
              q_required = False, q_correctAnswer = None\<rparr>]
      else [])"

text \<open>The questions pushed in iteration \<open>i\<close> of the loop, in the order of the pushes.\<close>

definition lineQuestions :: "jstring list \<Rightarrow> nat \<Rightarrow> DetectedQuestion list option" where
  "lineQuestions lines i =
     (let ln = trim (lines ! i)
      in do {
           q1 \<leftarrow> pass1 lines i ln;
           q2 \<leftarrow> pass2 lines i ln;
           Some (q1 @ q2 @ pass3 ln @ pass4 ln)
         })"

fun questionLoop :: "jstring list \<Rightarrow> nat list \<Rightarrow> DetectedQuestion list option" where
  "questionLoop lines [] = Some []"
| "questionLoop lines (i # is) =
     do { qs \<leftarrow> lineQuestions lines i; more \<leftarrow> questionLoop lines is; Some (qs @ more) }"

text \<open>The filter with the set \<open>seen\<close> of the lower-cased texts met so far.\<close>

fun dedupe :: "(jstring \<Rightarrow> jstring) \<Rightarrow> jstring set \<Rightarrow> DetectedQuestion list \<Rightarrow> DetectedQuestion list" where
  "dedupe lower seen [] = []"
| "dedupe lower seen (q # qs) =
     (let key = lower (q_text q)
      in if key \<in> seen then dedupe lower seen qs else q # dedupe lower (insert key seen) qs)"

definition allQuestions :: "jstring \<Rightarrow> DetectedQuestion list option" where
  "allQuestions text = (let lines = splitOn 10 text in questionLoop lines [0..<length lines])"

definition detectQuestions :: "(jstring \<Rightarrow> jstring) \<Rightarrow> jstring \<Rightarrow> DetectedQuestion list option" where
  "detectQuestions lower text = do { questions \<leftarrow> allQuestions text; Some (dedupe lower {} questions) }"

text \<open>\<open>/answer\s*key|answers?:|\<dots>|\<dots>/i\<close> (two Korean words for answer), \<open>/\[x\]/i\<close>
  and the two check marks.\<close>

definition answerKeyRe :: re where
  "answerKeyRe =
     alts [seq [liti (js ''answer''), star (Chr isSpace), liti (js ''key'')],
           seq [liti (js ''answer''), opt (Chr (is_ci 115)), Chr (is_ci 58)],
           liti [51221, 45813], liti [54644, 45813]]"

definition detectAnswerKey :: "jstring \<Rightarrow> bool" where
  "detectAnswerKey text \<longleftrightarrow>
     re_test answerKeyRe text \<or> re_test xMarkRe text \<or> re_test (Alt (lit [10003]) (lit [9989])) text"

text \<open>The keyword tests of \<open>analyzeForms\<close>; the Korean alternatives are given by their code
  units.\<close>

definition quizRe :: re where
  "quizRe =
     alts [liti (js ''quiz''), liti (js ''test''), liti (js ''exam''), liti [49884, 54744],
           liti [53300, 51592]]"

definition surveyRe :: re where
  "surveyRe =
     alts [liti (js ''survey''), liti (js ''feedback''), liti (js ''opinion''), liti (js ''rating''),
           liti (js ''satisfaction''), liti [49444, 47928], liti [51312, 49324], liti [51032, 44204]]"

definition feedbackRe :: re where
  "feedbackRe = alts [liti (js ''feedback''), liti [54588, 46300, 48177]]"

definition registerRe :: re where
  "registerRe =
     alts [liti (js ''register''), seq [liti (js ''sign''), opt (Chr dot), liti (js ''up'')],
           liti [46321, 47197], liti [49888, 52397]]"

definition analyzeForms :: "(jstring \<Rightarrow> jstring) \<Rightarrow> jstring \<Rightarrow> jstring \<Rightarrow> FormsAnalysis option" where
  "analyzeForms lower text title =
     do {
       questions \<leftarrow> detectQuestions lower text;
       let hasAnswerKey = detectAnswerKey text;
       let isQuizLikely = (hasAnswerKey \<or> list_ex (\<lambda>q. q_correctAnswer q \<noteq> None) questions
                             \<or> re_test quizRe text);
       let isSurveyLikely = (re_test surveyRe text \<or> list_ex (\<lambda>q. q_type q = scale) questions);
       let formType = (if isQuizLikely then form_quiz
                       else if isSurveyLikely then form_survey
                       else if re_test feedbackRe text then form_feedback
                       else if re_test registerRe text then form_registration
                       else form_general);
       let n = digitsOf (length questions);
       let description =
             (if formType = form_quiz
              then js ''Quiz with '' @ n @ js '' questions generated from note content''
              else if formType = form_survey
              then js ''Survey with '' @ n @ js '' questions to gather responses''
              else js ''Form with '' @ n @ js '' questions based on note content'');
       Some \<lparr>f_formType = formType, f_suggestedTitle = title, f_description = description,
             f_questions = questions, f_hasAnswerKey = hasAnswerKey,
             f_isQuizLikely = isQuizLikely, f_isSurveyLikely = isSurveyLikely\<rparr>
     }"

subsection \<open>The entry point\<close>

record 'n NoteAnalysis =
  a_title :: jstring
  a_wordCount :: nat
  a_lineCount :: nat
  a_docs :: DocsAnalysis
  a_sheets :: "'n SheetsAnalysis"
  a_slides :: SlidesAnalysis
  a_forms :: FormsAnalysis

definition analyze ::
  "(jstring \<Rightarrow> jstring) \<Rightarrow> (jstring \<Rightarrow> 'n option) \<Rightarrow> jstring \<Rightarrow> jstring \<Rightarrow> 'n NoteAnalysis option" where
  "analyze lower parseFloat text fileName =
     do {
       let lines = splitOn 10 text;
       title \<leftarrow> extractTitle text fileName;
       docs \<leftarrow> analyzeDocs text title;
       sheets \<leftarrow> analyzeSheets parseFloat text;
       slides \<leftarrow> analyzeSlides text title;
       forms \<leftarrow> analyzeForms lower text title;
       Some \<lparr>a_title = title, a_wordCount = countWords text, a_lineCount = length lines,
             a_docs = docs, a_sheets = sheets, a_slides = slides, a_forms = forms\<rparr>
     }"

section \<open>The analyzer always returns\<close>

text \<open>Every group that the code reads belongs to every match of its pattern, and the
  pattern of the \<open>exec\<close> loop never matches the empty string.\<close>

lemma grp_defined:
  "re_exec r s = Some m \<Longrightarrow> sets_grp r n \<Longrightarrow> \<exists>g. grp m n = Some g"
  using re_search_sound[of r "[]" s m] by (auto simp: re_exec_def)

lemma exec_loop_total:
  "nonempty r \<Longrightarrow>
   \<exists>ms. exec_loop r b a = Some ms
     \<and> (\<forall>m \<in> set ms. (\<forall>n. sets_grp r n \<longrightarrow> grp m n \<noteq> None)
           \<and> (\<forall>ns. sets_one r ns \<longrightarrow> (\<exists>n \<in> ns. grp m n \<noteq> None))
           \<and> (\<forall>n. fills r n \<longrightarrow> grp m n \<noteq> Some []))"
proof (induction r b a rule: exec_loop.induct)
  case (1 r b a)
  show ?case
  proof (cases "re_search r b a")
    case None
    then show ?thesis by (subst exec_loop.simps[of r b a]) simp
  next
    case (Some m)
    from re_search_sound[OF Some] 1(2) have ne: "m_text m \<noteq> []"
      and g: "\<forall>n. sets_grp r n \<longrightarrow> grp m n \<noteq> None" by auto
    note g2 = re_search_groups[OF Some]
    from 1(1)[OF Some ne 1(2)] obtain ms where
      ms: "exec_loop r (rev (m_text m) @ rev (m_pre m)) (m_post m) = Some ms"
          "\<forall>m \<in> set ms. (\<forall>n. sets_grp r n \<longrightarrow> grp m n \<noteq> None)
           \<and> (\<forall>ns. sets_one r ns \<longrightarrow> (\<exists>n \<in> ns. grp m n \<noteq> None))
           \<and> (\<forall>n. fills r n \<longrightarrow> grp m n \<noteq> Some [])" by blast
    have "exec_loop r b a = Some (m # ms)"
      by (subst exec_loop.simps[of r b a]) (simp add: Some ne ms(1))
    with g g2 ms(2) show ?thesis by auto
  qed
qed

lemma those_map_total:
  "(\<And>x. x \<in> set xs \<Longrightarrow> \<exists>y. f x = Some y) \<Longrightarrow> \<exists>ys. those (map f xs) = Some ys"
proof (induction xs)
  case Nil
  show ?case by simp
next
  case (Cons x xs)
  from Cons.prems[of x] obtain y where y: "f x = Some y" by auto
  from Cons.IH Cons.prems obtain ys where "those (map f xs) = Some ys" by auto
  with y show ?case by simp
qed

lemma extractHeadings_total: "\<exists>hs. extractHeadings src = Some hs"
proof -
  have ne: "nonempty headingGmRe" by (simp add: headingGmRe_def)
  from exec_loop_total[OF ne, of "[]" src] obtain ms where
    ms: "re_exec_all headingGmRe src = Some ms"
        "\<forall>m \<in> set ms. \<forall>n. sets_grp headingGmRe n \<longrightarrow> grp m n \<noteq> None"
    unfolding re_exec_all_def by blast
  have "\<And>m. m \<in> set ms \<Longrightarrow> \<exists>h. headingOf m = Some h"
  proof -
    fix m assume "m \<in> set ms"
    with ms(2) have "grp m 1 \<noteq> None" "grp m 2 \<noteq> None" by (auto simp: headingGmRe_def)
    then show "\<exists>h. headingOf m = Some h" by (auto simp: headingOf_def)
  qed
  from those_map_total[of ms headingOf, OF this] obtain hs where "those (map headingOf ms) = Some hs" by blast
  with ms(1) show ?thesis by (simp add: extractHeadings_def)
qed

lemma extractTitle_total: "\<exists>t. extractTitle src fileName = Some t"
proof (cases "re_exec h1Re src")
  case (Some m)
  from grp_defined[OF Some, of 1] obtain g where "grp m 1 = Some g" by (auto simp: h1Re_def)
  with Some show ?thesis by (simp add: extractTitle_def)
next
  case None
  show ?thesis
  proof (cases "re_exec yamlTitleRe src")
    case (Some m)
    from grp_defined[OF Some, of 1] obtain g where "grp m 1 = Some g" by (auto simp: yamlTitleRe_def)
    with Some None show ?thesis by (simp add: extractTitle_def)
  next
    case N2: None
    with None show ?thesis by (simp add: extractTitle_def)
  qed
qed

lemma analyzeDocs_total: "\<exists>d. analyzeDocs src title = Some d"
  using extractHeadings_total[of src] by (auto simp: analyzeDocs_def Let_def)

lemma listLoop_total: "\<exists>st'. listLoop st prev ls = Some st'"
proof (induction ls arbitrary: st prev)
  case Nil
  show ?case by simp
next
  case (Cons ln rest)
  show ?case
  proof (cases "re_exec ulRe ln")
    case (Some m)
    from grp_defined[OF Some, of 1] obtain g where "grp m 1 = Some g" by (auto simp: ulRe_def)
    with Some Cons.IH show ?thesis by (simp add: Let_def)
  next
    case None
    show ?thesis
    proof (cases "re_exec olRe ln")
      case (Some m)
      from grp_defined[OF Some, of 1] obtain g where "grp m 1 = Some g" by (auto simp: olRe_def)
      with Some None Cons.IH show ?thesis by (simp add: Let_def)
    next
      case N2: None
      with None Cons.IH show ?thesis by (simp add: Let_def)
    qed
  qed
qed

lemma extractLists_total: "\<exists>ls. extractLists src = Some ls"
  using listLoop_total[of listScan0 "[]" "splitOn 10 src"] by (auto simp: extractLists_def)

lemma numLoop_total: "\<exists>ds. numLoop parseFloat ls = Some ds"
proof (induction ls)
  case Nil
  show ?case by simp
next
  case (Cons ln rest)
  show ?case
  proof (cases "re_exec numRe ln")
    case (Some m)
    from grp_defined[OF Some, of 1] obtain g1 where g1: "grp m 1 = Some g1" by (auto simp: numRe_def)
    from grp_defined[OF Some, of 2] obtain g2 where g2: "grp m 2 = Some g2" by (auto simp: numRe_def)
    from Some g1 g2 Cons.IH show ?thesis by (auto simp: Let_def)
  next
    case None
    with Cons.IH show ?thesis by simp
  qed
qed

lemma analyzeSheets_total: "\<exists>s. analyzeSheets parseFloat src = Some s"
proof -
  obtain ls where ls: "extractLists src = Some ls" using extractLists_total by blast
  obtain ds where ds: "extractNumericalData parseFloat src = Some ds"
    using numLoop_total by (auto simp: extractNumericalData_def)
  show ?thesis
    by (cases "extractTables src") (simp_all add: analyzeSheets_def ls ds firstTableRows_def Let_def)
qed

lemma sectionLoop_total: "\<exists>r. sectionLoop secs h c ls = Some r"
proof (induction ls arbitrary: secs h c)
  case Nil
  show ?case by simp
next
  case (Cons ln rest)
  show ?case
  proof (cases "re_exec sectionHeadingRe ln")
    case (Some m)
    from grp_defined[OF Some, of 2] obtain g where "grp m 2 = Some g"
      by (auto simp: sectionHeadingRe_def)
    with Some Cons.IH show ?thesis by simp
  next
    case None
    with Cons.IH show ?thesis by simp
  qed
qed

lemma allSections_total: "\<exists>secs. allSections src = Some secs"
  by (simp add: allSections_def sectionLoop_total)

lemma bulletLoop_total: "\<exists>bs. bulletLoop ls = Some bs"
proof (induction ls)
  case Nil
  show ?case by simp
next
  case (Cons ln rest)
  from Cons.IH obtain bs where bs: "bulletLoop rest = Some bs" by blast
  show ?case
  proof (cases "re_exec ulRe ln")
    case (Some m)
    from grp_defined[OF Some, of 1] obtain g where "grp m 1 = Some g" by (auto simp: ulRe_def)
    with Some bs show ?thesis by simp
  next
    case None
    show ?thesis
    proof (cases "re_exec olRe ln")
      case (Some m)
      from grp_defined[OF Some, of 1] obtain g where "grp m 1 = Some g" by (auto simp: olRe_def)
      with Some None bs show ?thesis by simp
    next
      case N2: None
      with None bs show ?thesis by simp
    qed
  qed
qed

lemma extractBulletPoints_total: "\<exists>bs. extractBulletPoints src = Some bs"
  using bulletLoop_total[of "splitOn 10 src"] by (auto simp: extractBulletPoints_def)

lemma sectionSlides_total: "\<exists>sl. sectionSlides ss = Some sl"
proof (induction ss)
  case Nil
  show ?case by simp
next
  case (Cons s ss)
  obtain bs where "extractBulletPoints (content s) = Some bs" using extractBulletPoints_total by blast
  with Cons.IH show ?case by auto
qed

lemma splitIntoSections_total: "\<exists>ss. splitIntoSections src = Some ss"
  using allSections_total[of src] by (auto simp: splitIntoSections_def)

lemma analyzeSlides_total: "\<exists>s. analyzeSlides src title = Some s"
proof -
  obtain hs where hs: "extractHeadings src = Some hs" using extractHeadings_total by blast
  obtain ss where ss: "splitIntoSections src = Some ss" using splitIntoSections_total by blast
  obtain sl where sl: "sectionSlides ss = Some sl" using sectionSlides_total by blast
  show ?thesis by (simp add: analyzeSlides_def hs ss sl Let_def)
qed

lemma collectLoop_total: "\<exists>os. collectLoop options ls = Some os"
proof (induction ls arbitrary: options)
  case Nil
  show ?case by simp
next
  case (Cons l rest)
  show ?case
  proof (cases "re_exec letterOptRe (trim l)")
    case (Some m)
    from grp_defined[OF Some, of 1] obtain g where "grp m 1 = Some g" by (auto simp: letterOptRe_def)
    with Some Cons.IH show ?thesis by (simp add: Let_def)
  next
    case None
    show ?thesis
    proof (cases "re_exec checkOptRe (trim l)")
      case (Some m)
      from grp_defined[OF Some, of 1] obtain g where "grp m 1 = Some g" by (auto simp: checkOptRe_def)
      with Some None Cons.IH show ?thesis by (simp add: Let_def)
    next
      case N2: None
      show ?thesis
      proof (cases "if length options < 10 then re_exec ulRe (trim l) else None")
        case (Some m)
        then have "re_exec ulRe (trim l) = Some m" by (auto split: if_splits)
        from grp_defined[OF this, of 1] obtain g where "grp m 1 = Some g" by (auto simp: ulRe_def)
        with Some None N2 Cons.IH show ?thesis by (simp add: Let_def)
      next
        case N3: None
        with None N2 Cons.IH show ?thesis by (simp add: Let_def)
      qed
    qed
  qed
qed

lemma collectOptions_total: "\<exists>os. collectOptions lines i = Some os"
  by (simp add: collectOptions_def collectLoop_total)

lemma correctLoop_total: "\<exists>r. correctLoop ls = Some r"
proof (induction ls)
  case Nil
  show ?case by simp
next
  case (Cons l rest)
  show ?case
  proof (cases "re_exec xMarkTextRe (trim l)")
    case (Some m)
    from grp_defined[OF Some, of 1] obtain g where "grp m 1 = Some g" by (auto simp: xMarkTextRe_def)
    with Some Cons.IH show ?thesis by (simp add: Let_def)
  next
    case None
    with Cons.IH show ?thesis by (simp add: Let_def)
  qed
qed

lemma detectCorrectOption_total: "\<exists>r. detectCorrectOption lines i = Some r"
  by (simp add: detectCorrectOption_def correctLoop_total)

lemma pass1_total: "\<exists>qs. pass1 lines i ln = Some qs"
proof -
  obtain os where os: "collectOptions lines (Suc i) = Some os" using collectOptions_total by blast
  obtain r where r: "detectCorrectOption lines (Suc i) = Some r" using detectCorrectOption_total by blast
  show ?thesis by (simp add: pass1_def os r Let_def)
qed

lemma pass2_total: "\<exists>qs. pass2 lines i ln = Some qs"
proof (cases "re_exec qPrefixRe ln")
  case None
  then show ?thesis by (simp add: pass2_def)
next
  case (Some m)
  from grp_defined[OF Some, of 1] obtain g where g: "grp m (Suc 0) = Some g" by (auto simp: qPrefixRe_def)
  obtain os where os: "collectOptions lines (Suc i) = Some os" using collectOptions_total by blast
  show ?thesis by (simp add: pass2_def Some g os Let_def)
qed

lemma lineQuestions_total: "\<exists>qs. lineQuestions lines i = Some qs"
proof -
  obtain q1 where q1: "pass1 lines i (trim (lines ! i)) = Some q1" using pass1_total by blast
  obtain q2 where q2: "pass2 lines i (trim (lines ! i)) = Some q2" using pass2_total by blast
  show ?thesis by (simp add: lineQuestions_def q1 q2 Let_def)
qed

lemma questionLoop_total: "\<exists>qs. questionLoop lines is = Some qs"
proof (induction "is")
  case Nil
  show ?case by simp
next
  case (Cons i "is")
  obtain qs where "lineQuestions lines i = Some qs" using lineQuestions_total by blast
  with Cons show ?case by auto
qed

lemma allQuestions_total: "\<exists>qs. allQuestions src = Some qs"
  by (simp add: allQuestions_def Let_def questionLoop_total)

lemma detectQuestions_total: "\<exists>qs. detectQuestions lower src = Some qs"
  using allQuestions_total[of src] by (auto simp: detectQuestions_def)

lemma analyzeForms_total: "\<exists>f. analyzeForms lower src title = Some f"
proof -
  obtain qs where qs: "detectQuestions lower src = Some qs" using detectQuestions_total by blast
  show ?thesis by (simp add: analyzeForms_def qs Let_def)
qed

section \<open>Texts without structure\<close>

text \<open>A line on which none of the line patterns of the analyzer fires: it is no table row,
  no list item, no labelled number, no heading of a section, and none of the four question
  patterns applies to it.\<close>

definition plainLine :: "jstring \<Rightarrow> bool" where
  "plainLine raw \<longleftrightarrow>
     \<not> isTableRow (trim raw) \<and> \<not> re_test ulRe raw \<and> \<not> re_test olRe raw \<and> \<not> re_test numRe raw
     \<and> \<not> re_test sectionHeadingRe raw
     \<and> \<not> (endsWith (trim raw) (js ''?'') \<and> length (trim raw) > 5)
     \<and> \<not> re_test qPrefixRe (trim raw)
     \<and> \<not> (re_test rateRe (trim raw) \<and> re_test (Chr isDigit) (trim raw))
     \<and> \<not> re_test describeRe (stripMarker (trim raw))"

text \<open>A text without recognisable structure: all its lines are plain, and none of the
  patterns that the analyzer runs on the whole text matches: title, heading, the words of
  a report or a letter, an answer key, and the words of the form types.\<close>

definition unstructured :: "jstring \<Rightarrow> bool" where
  "unstructured src \<longleftrightarrow>
     (\<forall>raw \<in> set (splitOn 10 src). plainLine raw)
     \<and> \<not> re_test h1Re src \<and> \<not> re_test yamlTitleRe src \<and> \<not> re_test headingGmRe src
     \<and> \<not> re_test reportRe src \<and> \<not> re_test letterRe src
     \<and> \<not> detectAnswerKey src \<and> \<not> re_test quizRe src \<and> \<not> re_test surveyRe src
     \<and> \<not> re_test feedbackRe src \<and> \<not> re_test registerRe src"

lemma tableLoop_plain:
  "\<not> inTable st \<Longrightarrow> \<forall>raw \<in> set ls. \<not> isTableRow (trim raw) \<Longrightarrow> tableLoop st i ls = st"
  by (induction ls arbitrary: i) (simp_all add: tableStep_def)

lemma extractTables_plain:
  "\<forall>raw \<in> set (splitOn 10 src). \<not> isTableRow (trim raw) \<Longrightarrow> extractTables src = []"
  by (simp add: extractTables_def tableLoop_plain tableScan0_def)

lemma listLoop_plain:
  "\<not> inList st \<Longrightarrow> \<forall>ln \<in> set ls. \<not> re_test ulRe ln \<and> \<not> re_test olRe ln \<Longrightarrow>
   listLoop st prev ls = Some st"
  by (induction ls arbitrary: prev) (simp_all add: re_test_def)

lemma extractLists_plain:
  "\<forall>ln \<in> set (splitOn 10 src). \<not> re_test ulRe ln \<and> \<not> re_test olRe ln \<Longrightarrow>
   extractLists src = Some []"
  by (simp add: extractLists_def listLoop_plain listScan0_def)

lemma numLoop_plain:
  "\<forall>ln \<in> set ls. \<not> re_test numRe ln \<Longrightarrow> numLoop parseFloat ls = Some []"
  by (induction ls) (simp_all add: re_test_def)

lemma extractHeadings_plain: "\<not> re_test headingGmRe src \<Longrightarrow> extractHeadings src = Some []"
  by (simp add: extractHeadings_def re_exec_all_def exec_loop.simps[of _ "[]" src] re_test_def
        re_exec_def)

lemma sectionLoop_plain:
  "\<forall>ln \<in> set ls. \<not> re_test sectionHeadingRe ln \<Longrightarrow>
   sectionLoop secs h cc ls = Some (flushSection secs h (cc @ ls))"
  by (induction ls arbitrary: cc) (simp_all add: re_test_def)

lemma splitIntoSections_plain:
  "\<forall>ln \<in> set (splitOn 10 src). \<not> re_test sectionHeadingRe ln \<Longrightarrow> splitIntoSections src = Some []"
  by (simp add: splitIntoSections_def allSections_def sectionLoop_plain flushSection_def
        keepSection_def)

lemma lineQuestions_plain:
  "plainLine (lines ! i) \<Longrightarrow> lineQuestions lines i = Some []"
  by (auto simp: lineQuestions_def plainLine_def pass1_def pass2_def pass3_def pass4_def
        re_test_def Let_def split: option.splits)

lemma questionLoop_plain:
  "\<forall>i \<in> set is. plainLine (lines ! i) \<Longrightarrow> questionLoop lines is = Some []"
  by (induction "is") (simp_all add: lineQuestions_plain)

lemma detectQuestions_plain:
  "\<forall>raw \<in> set (splitOn 10 src). plainLine raw \<Longrightarrow> detectQuestions lower src = Some []"
proof -
  assume a: "\<forall>raw \<in> set (splitOn 10 src). plainLine raw"
  have "\<forall>i \<in> set [0..<length (splitOn 10 src)]. plainLine (splitOn 10 src ! i)"
    using a by simp
  then show ?thesis by (simp add: detectQuestions_def allQuestions_def questionLoop_plain Let_def)
qed

lemma classifyContent_plain:
  "\<not> re_test reportRe src \<Longrightarrow> \<not> re_test letterRe src \<Longrightarrow>
   classifyContent 0 p src = (if p \<le> 3 then ct_notes else ct_general)"
  by (simp add: classifyContent_def)

lemma extractTitle_plain:
  "\<not> re_test h1Re src \<Longrightarrow> \<not> re_test yamlTitleRe src \<Longrightarrow>
   extractTitle src fileName = Some (re_replace mdExtRe [] fileName)"
  by (simp add: extractTitle_def re_test_def)

lemma unstructured_analysis:
  assumes "unstructured src"
  shows "extractTables src = [] \<and> extractLists src = Some []
       \<and> extractNumericalData parseFloat src = Some [] \<and> extractHeadings src = Some []
       \<and> splitIntoSections src = Some [] \<and> detectQuestions lower src = Some []
       \<and> (\<exists>a. analyze lower parseFloat src fileName = Some a
             \<and> a_title a = re_replace mdExtRe [] fileName
             \<and> d_headings (a_docs a) = []
             \<and> d_contentType (a_docs a) = (if countParagraphs src \<le> 3 then ct_notes else ct_general)
             \<and> s_tables (a_sheets a) = [] \<and> s_lists (a_sheets a) = []
             \<and> s_numericalData (a_sheets a) = [] \<and> s_suggestedChartType (a_sheets a) = chart_none
             \<and> \<not> s_hasTabulableContent (a_sheets a)
             \<and> sl_slides (a_slides a)
                 = [\<lparr>sp_title = a_title a, sp_bulletPoints = [], sp_layout = layout_title,
                     sp_speakerNotes = js ''Introduction''\<rparr>]
             \<and> f_questions (a_forms a) = [] \<and> f_formType (a_forms a) = form_general)"
proof -
  from assms have p: "\<forall>raw \<in> set (splitOn 10 src). plainLine raw"
    and w: "\<not> re_test h1Re src" "\<not> re_test yamlTitleRe src" "\<not> re_test headingGmRe src"
      "\<not> re_test reportRe src" "\<not> re_test letterRe src" "\<not> detectAnswerKey src"
      "\<not> re_test quizRe src" "\<not> re_test surveyRe src" "\<not> re_test feedbackRe src"
      "\<not> re_test registerRe src"
    by (simp_all add: unstructured_def)
  have t: "extractTables src = []" using p by (intro extractTables_plain) (simp add: plainLine_def)
  have l: "extractLists src = Some []" using p by (intro extractLists_plain) (simp add: plainLine_def)
  have n: "extractNumericalData parseFloat src = Some []"
    unfolding extractNumericalData_def using p by (intro numLoop_plain) (simp add: plainLine_def)
  have h: "extractHeadings src = Some []" by (rule extractHeadings_plain[OF w(3)])
  have s: "splitIntoSections src = Some []"
    using p by (intro splitIntoSections_plain) (simp add: plainLine_def)
  have q: "detectQuestions lower src = Some []" by (rule detectQuestions_plain[OF p])
  have ti: "extractTitle src fileName = Some (re_replace mdExtRe [] fileName)"
    by (rule extractTitle_plain[OF w(1,2)])
  show ?thesis
    using w(6-10)
    by (simp add: t l n h s q ti analyze_def analyzeDocs_def analyzeSheets_def analyzeSlides_def
          analyzeForms_def classifyContent_plain[OF w(4,5)] Let_def)
qed


text \<open>The definitions that the evaluation of \<open>unstructured\<close> on a literal unfolds.\<close>

lemmas plain_ev = unstructured_def plainLine_def isTableRow_def ulRe_def olRe_def numRe_def
  sectionHeadingRe_def qPrefixRe_def rateRe_def describeRe_def stripMarker_def markerRe_def
  h1Re_def yamlTitleRe_def headingGmRe_def reportRe_def letterRe_def detectAnswerKey_def
  answerKeyRe_def xMarkRe_def quizRe_def surveyRe_def feedbackRe_def registerRe_def

text \<open>
  C9 as stated fails in its second half. The empty text and the text \<open>no heading here\<close>
  have no recognisable structure, and \<open>analyze\<close> classifies their content as \<open>notes\<close>,
  not as \<open>general\<close>: a text with at most two headings and at most three paragraphs is
  \<open>notes\<close>.
\<close>

theorem structureless_text_is_notes:
  "unstructured []
   \<and> map_option (d_contentType \<circ> a_docs) (analyze (\<lambda>s. s) (\<lambda>s. Some s) [] (js ''n.md''))
       = Some ct_notes
   \<and> unstructured (js ''no heading here'')
   \<and> map_option (d_contentType \<circ> a_docs)
        (analyze (\<lambda>s. s) (\<lambda>s. Some s) (js ''no heading here'') (js ''n.md''))
       = Some ct_notes"
proof -
  have u1: "unstructured []" by (simp add: plain_ev str_ev)
  have c1: "countParagraphs [] \<le> 3" by (simp add: countParagraphs_def frontmatterRe_def str_ev)
  have u2: "unstructured (js ''no heading here'')" by (simp add: plain_ev str_ev)
  have c2: "countParagraphs (js ''no heading here'') \<le> 3"
    by (simp add: countParagraphs_def frontmatterRe_def str_ev)
  from unstructured_analysis[OF u1, of "\<lambda>s. Some s" "\<lambda>s. s" "js ''n.md''"] c1 obtain a1 where
    "analyze (\<lambda>s. s) (\<lambda>s. Some s) [] (js ''n.md'') = Some a1" "d_contentType (a_docs a1) = ct_notes"
    by auto
  moreover
  from unstructured_analysis[OF u2, of "\<lambda>s. Some s" "\<lambda>s. s" "js ''n.md''"] c2 obtain a2 where
    "analyze (\<lambda>s. s) (\<lambda>s. Some s) (js ''no heading here'') (js ''n.md'') = Some a2"
    "d_contentType (a_docs a2) = ct_notes"
    by auto
  ultimately show ?thesis using u1 u2 by simp
qed

text \<open>
  C9, amended. For every text and every file name, \<open>analyze\<close> returns an analysis, and
  so do the helpers that can fail in the model: \<open>extractLists\<close>, \<open>extractNumericalData\<close>,
  \<open>extractHeadings\<close>, \<open>splitIntoSections\<close> and \<open>detectQuestions\<close> (\<open>extractTables\<close> has
  no failing branch). When the text has no recognisable structure, the six helpers return
  the empty list, and the analysis has the file name without \<open>.md\<close> as title, no
  headings, tables, lists, numbers or questions, no chart, the title slide only, the form
  type \<open>general\<close>, and the content type \<open>notes\<close> when the text has at most three
  paragraphs and \<open>general\<close> when it has more.
\<close>

theorem analyzer_returns_defaults:
  "(\<exists>a. analyze lower parseFloat src fileName = Some a)
   \<and> (\<exists>ls. extractLists src = Some ls)
   \<and> (\<exists>ds. extractNumericalData parseFloat src = Some ds)
   \<and> (\<exists>hs. extractHeadings src = Some hs)
   \<and> (\<exists>ss. splitIntoSections src = Some ss)
   \<and> (\<exists>qs. detectQuestions lower src = Some qs)
   \<and> (unstructured src \<longrightarrow>
        extractTables src = [] \<and> extractLists src = Some []
        \<and> extractNumericalData parseFloat src = Some [] \<and> extractHeadings src = Some []
        \<and> splitIntoSections src = Some [] \<and> detectQuestions lower src = Some []
        \<and> (\<exists>a. analyze lower parseFloat src fileName = Some a
              \<and> a_title a = re_replace mdExtRe [] fileName
              \<and> d_headings (a_docs a) = []
              \<and> d_contentType (a_docs a)
                  = (if countParagraphs src \<le> 3 then ct_notes else ct_general)
              \<and> s_tables (a_sheets a) = [] \<and> s_lists (a_sheets a) = []
              \<and> s_numericalData (a_sheets a) = [] \<and> s_suggestedChartType (a_sheets a) = chart_none
              \<and> \<not> s_hasTabulableContent (a_sheets a)
              \<and> sl_slides (a_slides a)
                  = [\<lparr>sp_title = a_title a, sp_bulletPoints = [], sp_layout = layout_title,
                      sp_speakerNotes = js ''Introduction''\<rparr>]
              \<and> f_questions (a_forms a) = [] \<and> f_formType (a_forms a) = form_general))"
proof -
  obtain t where t: "extractTitle src fileName = Some t" using extractTitle_total by blast
  obtain d where d: "analyzeDocs src t = Some d" using analyzeDocs_total by blast
  obtain s where s: "analyzeSheets parseFloat src = Some s" using analyzeSheets_total by blast
  obtain sl where sl: "analyzeSlides src t = Some sl" using analyzeSlides_total by blast
  obtain f where f: "analyzeForms lower src t = Some f" using analyzeForms_total by blast
  have a: "\<exists>a. analyze lower parseFloat src fileName = Some a"
    by (simp add: analyze_def t d s sl f Let_def)
  have n: "\<exists>ds. extractNumericalData parseFloat src = Some ds"
    using numLoop_total[of parseFloat "splitOn 10 src"] by (simp add: extractNumericalData_def)
  show ?thesis
    using a n extractLists_total[of src] extractHeadings_total[of src]
      splitIntoSections_total[of src] detectQuestions_total[of lower src]
      unstructured_analysis[of src parseFloat lower fileName]
    by blast
qed

theorem analyzer_returns_defaults_witness:
  "unstructured (js ''plain words'' @ [10] @ js ''more words'')
   \<and> extractTables (js ''plain words'' @ [10] @ js ''more words'') = []
   \<and> detectQuestions (\<lambda>s. s) (js ''plain words'' @ [10] @ js ''more words'') = Some []
   \<and> map_option (\<lambda>a. (a_title a, d_contentType (a_docs a), f_formType (a_forms a)))
        (analyze (\<lambda>s. s) (\<lambda>s. Some s) (js ''plain words'' @ [10] @ js ''more words'') (js ''n.md''))
       = Some (js ''n'', ct_notes, form_general)
   \<and> unstructured (js ''a'' @ [10, 10] @ js ''b'' @ [10, 10] @ js ''c'' @ [10, 10] @ js ''d'')
   \<and> map_option (d_contentType \<circ> a_docs)
        (analyze (\<lambda>s. s) (\<lambda>s. Some s)
           (js ''a'' @ [10, 10] @ js ''b'' @ [10, 10] @ js ''c'' @ [10, 10] @ js ''d'') (js ''n.md''))
       = Some ct_general"
proof -
  let ?w = "js ''plain words'' @ [10] @ js ''more words''"
  let ?v = "js ''a'' @ [10, 10] @ js ''b'' @ [10, 10] @ js ''c'' @ [10, 10] @ js ''d''"
  have u: "unstructured ?w" by (simp add: plain_ev str_ev)
  have c: "countParagraphs ?w \<le> 3" by (simp add: countParagraphs_def frontmatterRe_def str_ev)
  have n: "re_replace mdExtRe [] (js ''n.md'') = js ''n''" by (simp add: mdExtRe_def str_ev)
  have u': "unstructured ?v" by (simp add: plain_ev str_ev)
  have c': "\<not> countParagraphs ?v \<le> 3" by (simp add: countParagraphs_def frontmatterRe_def str_ev)
  from analyzer_returns_defaults[of "\<lambda>s. s" "\<lambda>s. Some s" ?w "js ''n.md''"] u c n
  have 1: "extractTables ?w = [] \<and> detectQuestions (\<lambda>s. s) ?w = Some []
     \<and> map_option (\<lambda>a. (a_title a, d_contentType (a_docs a), f_formType (a_forms a)))
          (analyze (\<lambda>s. s) (\<lambda>s. Some s) ?w (js ''n.md'')) = Some (js ''n'', ct_notes, form_general)"
    by auto
  from analyzer_returns_defaults[of "\<lambda>s. s" "\<lambda>s. Some s" ?v "js ''n.md''"] u' c'
  have 2: "map_option (d_contentType \<circ> a_docs) (analyze (\<lambda>s. s) (\<lambda>s. Some s) ?v (js ''n.md''))
             = Some ct_general"
    by auto
  from 1 2 u u' show ?thesis by simp
qed

section \<open>Sections\<close>

lemmas sec_ev = splitIntoSections_def allSections_def sectionHeadingRe_def flushSection_def
  keepSection_def

text \<open>
  C1 as stated fails: the text \<open># A\<close> has one section, with heading \<open>A\<close> and an empty
  body, and \<open>splitIntoSections\<close> returns no section at all.
\<close>

theorem headed_empty_section_dropped:
  "allSections (js ''# A'') = Some [\<lparr>heading = js ''A'', content = []\<rparr>]
   \<and> splitIntoSections (js ''# A'') = Some []"
  by (simp add: sec_ev str_ev)

text \<open>
  C1, amended. \<open>splitIntoSections\<close> returns the sections found by the loop that pass the
  filter, and a section passes exactly when its heading is not empty and its trimmed body
  is not empty: a section is dropped when its heading is empty or its body is empty or
  white space only.
\<close>

theorem sections_kept_iff:
  "\<exists>secs. allSections src = Some secs
     \<and> splitIntoSections src = Some (filter keepSection secs)
     \<and> (\<forall>s \<in> set secs.
           s \<in> set (filter keepSection secs) \<longleftrightarrow> heading s \<noteq> [] \<and> trim (content s) \<noteq> [])"
proof -
  obtain secs where secs: "allSections src = Some secs" using allSections_total by blast
  then have "splitIntoSections src = Some (filter keepSection secs)"
    by (simp add: splitIntoSections_def)
  with secs show ?thesis by (auto simp: keepSection_def)
qed

theorem sections_kept_iff_witness:
  "allSections (js ''x'' @ [10] @ js ''# A'' @ [10] @ js ''## B'' @ [10] @ js ''body'')
     = Some [\<lparr>heading = [], content = js ''x''\<rparr>, \<lparr>heading = js ''A'', content = []\<rparr>,
             \<lparr>heading = js ''B'', content = js ''body''\<rparr>]
   \<and> splitIntoSections (js ''x'' @ [10] @ js ''# A'' @ [10] @ js ''## B'' @ [10] @ js ''body'')
     = Some [\<lparr>heading = js ''B'', content = js ''body''\<rparr>]"
  using sections_kept_iff [of "js ''x'' @ [10] @ js ''# A'' @ [10] @ js ''## B'' @ [10] @ js ''body''"]
  by (simp add: sec_ev str_ev)

section \<open>Question detection\<close>

lemmas q_ev = allQuestions_def detectQuestions_def lineQuestions_def pass1_def pass2_def pass3_def
  pass4_def qPrefixRe_def rateRe_def describeRe_def stripMarker_def markerRe_def
  collectOptions_def detectCorrectOption_def letterOptRe_def checkOptRe_def ulRe_def
  xMarkRe_def xMarkTextRe_def correctRe_def correctWordRe_def markerPrefixRe_def

definition asciiLower :: "jstring \<Rightarrow> jstring" where
  "asciiLower s = map (\<lambda>x. if 65 \<le> x \<and> x \<le> 90 then x + 32 else x) s"

lemma dedupe_subset: "set (dedupe lower seen qs) \<subseteq> set qs"
  by (induction qs arbitrary: seen) (auto simp: Let_def)

lemma dedupe_keys_fresh: "q \<in> set (dedupe lower seen qs) \<Longrightarrow> lower (q_text q) \<notin> seen"
  by (induction qs arbitrary: seen) (auto simp: Let_def split: if_splits)

lemma dedupe_distinct: "distinct (map (\<lambda>q. lower (q_text q)) (dedupe lower seen qs))"
proof (induction qs arbitrary: seen)
  case Nil
  show ?case by simp
next
  case (Cons q qs)
  show ?case
  proof (cases "lower (q_text q) \<in> seen")
    case True
    with Cons show ?thesis by simp
  next
    case False
    have "lower (q_text q) \<notin> (\<lambda>q. lower (q_text q)) ` set (dedupe lower (insert (lower (q_text q)) seen) qs)"
    proof
      assume "lower (q_text q) \<in> (\<lambda>q. lower (q_text q)) ` set (dedupe lower (insert (lower (q_text q)) seen) qs)"
      then obtain q' where q': "q' \<in> set (dedupe lower (insert (lower (q_text q)) seen) qs)"
        "lower (q_text q') = lower (q_text q)" by auto
      from dedupe_keys_fresh[OF q'(1)] q'(2) show False by simp
    qed
    with False Cons show ?thesis by (simp add: Let_def)
  qed
qed

lemma dedupe_find:
  "find (\<lambda>q. lower (q_text q) = k) (dedupe lower seen qs)
     = (if k \<in> seen then None else find (\<lambda>q. lower (q_text q) = k) qs)"
proof (induction qs arbitrary: seen)
  case Nil
  show ?case by simp
next
  case (Cons q qs)
  show ?case
  proof (cases "lower (q_text q) \<in> seen")
    case True
    with Cons show ?thesis by auto
  next
    case False
    with Cons show ?thesis by (auto simp: Let_def)
  qed
qed

text \<open>
  C7. \<open>detectQuestions\<close> returns the detected questions after the filter \<open>dedupe\<close>. In
  the result no two questions have the same lower-cased text; for every key, the
  question of the result with that key is the first detected question with that key, as
  a whole record; and nothing but detected questions is returned. (\<open>find\<close> yields the
  first element that satisfies the test.)
\<close>

theorem dedupe_keeps_first:
  "\<exists>qs. allQuestions src = Some qs
     \<and> detectQuestions lower src = Some (dedupe lower {} qs)
     \<and> distinct (map (\<lambda>q. lower (q_text q)) (dedupe lower {} qs))
     \<and> (\<forall>k. find (\<lambda>q. lower (q_text q) = k) (dedupe lower {} qs)
              = find (\<lambda>q. lower (q_text q) = k) qs)
     \<and> set (dedupe lower {} qs) \<subseteq> set qs"
proof -
  obtain qs where qs: "allQuestions src = Some qs" using allQuestions_total by blast
  then have "detectQuestions lower src = Some (dedupe lower {} qs)"
    by (simp add: detectQuestions_def)
  with qs show ?thesis
    using dedupe_distinct[of lower "{}" qs] dedupe_find[of lower _ "{}" qs] dedupe_subset[of lower "{}" qs]
    by auto
qed

lemma wit1: "allQuestions (js ''Is it?'' @ [10] @ js ''- a'' @ [10] @ js ''- b'' @ [10, 10] @ js ''IS IT?'' @ [10] @ js ''- c'' @ [10] @ js ''- d'')
     = Some [\<lparr>q_text = js ''Is it?'', q_type = multiple_choice, q_options = [js ''a'', js ''b''],
              q_required = True, q_correctAnswer = None\<rparr>,
             \<lparr>q_text = js ''IS IT?'', q_type = multiple_choice, q_options = [js ''c'', js ''d''],
              q_required = True, q_correctAnswer = None\<rparr>]"
  by (simp add: q_ev str_ev upt_rec)

theorem dedupe_keeps_first_witness:
  "detectQuestions asciiLower (js ''Is it?'' @ [10] @ js ''- a'' @ [10] @ js ''- b'' @ [10, 10] @ js ''IS IT?'' @ [10] @ js ''- c'' @ [10] @ js ''- d'')
     = Some [\<lparr>q_text = js ''Is it?'', q_type = multiple_choice, q_options = [js ''a'', js ''b''],
              q_required = True, q_correctAnswer = None\<rparr>]"
proof -
  let ?src = "js ''Is it?'' @ [10] @ js ''- a'' @ [10] @ js ''- b'' @ [10, 10] @ js ''IS IT?'' @ [10] @ js ''- c'' @ [10] @ js ''- d''"
  from dedupe_keeps_first [of ?src asciiLower] obtain qs where
    qs: "allQuestions ?src = Some qs" "detectQuestions asciiLower ?src = Some (dedupe asciiLower {} qs)"
    by blast
  from qs(1) have "qs = [\<lparr>q_text = js ''Is it?'', q_type = multiple_choice, q_options = [js ''a'', js ''b''],
              q_required = True, q_correctAnswer = None\<rparr>,
             \<lparr>q_text = js ''IS IT?'', q_type = multiple_choice, q_options = [js ''c'', js ''d''],
              q_required = True, q_correctAnswer = None\<rparr>]"
    unfolding wit1 by simp
  with qs(2) show ?thesis by (simp add: asciiLower_def js_def)
qed

text \<open>
  C6. Pattern 2 always returns; when it produces a question, the line matches the prefix
  pattern and does not end in a question mark, and the question has no correct answer.
  For a line that matches the prefix pattern and ends in a question mark it produces
  nothing, and the questions of that line are those of pattern 1, unchanged, followed by
  those of patterns 3 and 4.
\<close>

theorem prefixed_question_mark_line:
  "(\<exists>qs. pass2 lines i ln = Some qs
       \<and> (qs \<noteq> [] \<longrightarrow> re_exec qPrefixRe ln \<noteq> None \<and> \<not> endsWith ln (js ''?''))
       \<and> (\<forall>q \<in> set qs. q_correctAnswer q = None))
   \<and> (re_exec qPrefixRe ln \<noteq> None \<and> endsWith ln (js ''?'') \<longrightarrow> pass2 lines i ln = Some [])
   \<and> (re_exec qPrefixRe (trim (lines ! i)) \<noteq> None \<and> endsWith (trim (lines ! i)) (js ''?'') \<longrightarrow>
        (\<exists>q1. pass1 lines i (trim (lines ! i)) = Some q1
           \<and> lineQuestions lines i = Some (q1 @ pass3 (trim (lines ! i)) @ pass4 (trim (lines ! i)))))"
proof -
  obtain qs where qs: "pass2 lines i ln = Some qs" using pass2_total by blast
  have a: "qs \<noteq> [] \<longrightarrow> re_exec qPrefixRe ln \<noteq> None \<and> \<not> endsWith ln (js ''?'')"
    using qs by (auto simp: pass2_def split: option.splits if_splits)
  have b: "\<forall>q \<in> set qs. q_correctAnswer q = None"
    using qs by (auto simp: pass2_def Let_def split: option.splits if_splits bind_splits)
  have c: "pass2 lines j l = Some []" if "re_exec qPrefixRe l \<noteq> None" "endsWith l (js ''?'')" for j l
    using that by (auto simp: pass2_def)
  have d: "re_exec qPrefixRe (trim (lines ! i)) \<noteq> None \<and> endsWith (trim (lines ! i)) (js ''?'') \<longrightarrow>
        (\<exists>q1. pass1 lines i (trim (lines ! i)) = Some q1
           \<and> lineQuestions lines i = Some (q1 @ pass3 (trim (lines ! i)) @ pass4 (trim (lines ! i))))"
  proof
    assume h: "re_exec qPrefixRe (trim (lines ! i)) \<noteq> None \<and> endsWith (trim (lines ! i)) (js ''?'')"
    obtain q1 where q1: "pass1 lines i (trim (lines ! i)) = Some q1" using pass1_total by blast
    from h c have "pass2 lines i (trim (lines ! i)) = Some []" by blast
    with q1 show "\<exists>q1. pass1 lines i (trim (lines ! i)) = Some q1
           \<and> lineQuestions lines i = Some (q1 @ pass3 (trim (lines ! i)) @ pass4 (trim (lines ! i)))"
      by (simp add: lineQuestions_def Let_def)
  qed
  show ?thesis using qs a b c d by blast
qed

theorem prefixed_question_mark_line_witness:
  "re_exec qPrefixRe (js ''Q: What is it?'') \<noteq> None \<and> endsWith (js ''Q: What is it?'') (js ''?'')
   \<and> pass2 [js ''Q: What is it?'', js ''Q2. Your name''] 0 (js ''Q: What is it?'') = Some []
   \<and> lineQuestions [js ''Q: What is it?'', js ''Q2. Your name''] 0
       = Some [\<lparr>q_text = js ''Q: What is it?'', q_type = short_answer, q_options = [],
                q_required = True, q_correctAnswer = None\<rparr>]
   \<and> pass2 [js ''Q: What is it?'', js ''Q2. Your name''] 1 (js ''Q2. Your name'')
       = Some [\<lparr>q_text = js ''Your name'', q_type = short_answer, q_options = [],
                q_required = True, q_correctAnswer = None\<rparr>]"
  using prefixed_question_mark_line [of "[js ''Q: What is it?'', js ''Q2. Your name'']" 0 "js ''Q: What is it?''"]
  by (simp add: q_ev str_ev)

section \<open>How single patterns match\<close>

lemma rmatch_rep_chr_unfold:
  "rmatch (Rep g 0 None (Chr p)) (b, a, c) k =
     (case a of
        [] \<Rightarrow> k (b, a, c)
      | x # xs \<Rightarrow>
          if p x then
            (if g then (case rmatch (Rep g 0 None (Chr p)) (x # b, xs, c) k of
                          Some y \<Rightarrow> Some y | None \<Rightarrow> k (b, a, c))
             else (case k (b, a, c) of
                     Some y \<Rightarrow> Some y | None \<Rightarrow> rmatch (Rep g 0 None (Chr p)) (x # b, xs, c) k))
          else k (b, a, c))"
  by (subst rmatch.simps(7)[of g 0 None "Chr p" b a c k]) (cases a; cases g; simp split: option.splits)

lemma rmatch_rep_chr_Suc:
  "rmatch (Rep g (Suc n) None (Chr p)) (b, a, c) k =
     (case a of [] \<Rightarrow> None
      | x # xs \<Rightarrow> if p x then rmatch (Rep g n None (Chr p)) (x # b, xs, c) k else None)"
  by (subst rmatch.simps(7)[of g "Suc n" None "Chr p" b a c k]) (simp split: list.splits)

lemma rmatch_star_chr_iff:
  "rmatch (Rep g 0 None (Chr p)) (b, a, c) k \<noteq> None \<longleftrightarrow>
     (\<exists>n \<le> length (takeWhile p a). k (rev (take n a) @ b, drop n a, c) \<noteq> None)"
proof (induction a arbitrary: b)
  case Nil
  show ?case by (subst rmatch_rep_chr_unfold) simp
next
  case (Cons x xs)
  show ?case
  proof (cases "p x")
    case False
    then show ?thesis by (subst rmatch_rep_chr_unfold) simp
  next
    case True
    have "rmatch (Rep g 0 None (Chr p)) (b, x # xs, c) k \<noteq> None \<longleftrightarrow>
            rmatch (Rep g 0 None (Chr p)) (x # b, xs, c) k \<noteq> None \<or> k (b, x # xs, c) \<noteq> None"
      by (subst rmatch_rep_chr_unfold) (auto simp: True split: option.splits)
    also have "\<dots> \<longleftrightarrow> (\<exists>n \<le> length (takeWhile p xs). k (rev (take n xs) @ x # b, drop n xs, c) \<noteq> None)
                  \<or> k (b, x # xs, c) \<noteq> None"
      by (simp only: Cons.IH)
    also have "\<dots> \<longleftrightarrow> (\<exists>n \<le> length (takeWhile p (x # xs)).
                      k (rev (take n (x # xs)) @ b, drop n (x # xs), c) \<noteq> None)"
      (is "?L \<longleftrightarrow> ?R")
    proof
      assume ?L
      then show ?R
      proof
        assume "\<exists>n \<le> length (takeWhile p xs). k (rev (take n xs) @ x # b, drop n xs, c) \<noteq> None"
        then obtain n where "n \<le> length (takeWhile p xs)" "k (rev (take n xs) @ x # b, drop n xs, c) \<noteq> None"
          by blast
        then show ?R using True by (intro exI[of _ "Suc n"]) simp
      next
        assume "k (b, x # xs, c) \<noteq> None"
        then show ?R by (intro exI[of _ 0]) simp
      qed
    next
      assume ?R
      then obtain n where n: "n \<le> length (takeWhile p (x # xs))"
        "k (rev (take n (x # xs)) @ b, drop n (x # xs), c) \<noteq> None" by blast
      show ?L
      proof (cases n)
        case 0
        with n show ?thesis by simp
      next
        case (Suc m)
        with n True show ?thesis by auto
      qed
    qed
    finally show ?thesis .
  qed
qed

lemma re_at_anchored: "b \<noteq> [] \<Longrightarrow> re_at (Seq (Bol False) r) b a = None"
  by (cases b) (simp_all add: re_at_def)

lemma re_search_anchored: "b \<noteq> [] \<Longrightarrow> re_search (Seq (Bol False) r) b a = None"
  by (induction a arbitrary: b) (simp_all add: re_at_anchored)

lemma re_exec_anchored: "re_exec (Seq (Bol False) r) s = re_at (Seq (Bol False) r) [] s"
  by (cases s) (simp_all add: re_exec_def re_search_anchored split: option.splits)

definition isSepChar :: "cu \<Rightarrow> bool" where
  "isSepChar x \<longleftrightarrow> isSpace x \<or> x = 45 \<or> x = 58 \<or> x = 124"

lemma separatorRe_alt:
  "separatorRe = Seq (Bol False) (Seq (Chr (is_cu 124)) (Seq (plus (Chr isSepChar))
                   (Seq (Chr (is_cu 124)) (Eol False))))"
proof -
  have "(\<lambda>x. isSpace x \<or> oneOf (js ''-:|'') x) = isSepChar"
    by (auto simp: fun_eq_iff isSepChar_def oneOf_def js_def)
  then show ?thesis by (simp add: separatorRe_def)
qed

lemma separator_iff:
  "re_test separatorRe ln \<longleftrightarrow>
     (\<exists>w. w \<noteq> [] \<and> ln = 124 # w @ [124] \<and> (\<forall>x \<in> set w. isSepChar x))"
proof -
  let ?fin = "\<lambda>(b', a', c'). Some \<lparr>m_pre = rev [], m_text = take (length ln - length a') ln,
                              m_post = a', m_caps = c'\<rparr>"
  let ?k = "\<lambda>st. rmatch (Seq (Chr (is_cu 124)) (Eol False)) st ?fin"
  have k: "?k (b, a, c) \<noteq> None \<longleftrightarrow> a = [124]" for b a c
    by (cases a) (auto simp: is_cu_def split: list.splits)
  have "re_test separatorRe ln \<longleftrightarrow>
          (\<exists>x xs. ln = 124 # x # xs \<and> isSepChar x
             \<and> rmatch (Rep True 0 None (Chr isSepChar)) ([x, 124], xs, Map.empty) ?k \<noteq> None)"
    unfolding re_test_def separatorRe_alt re_exec_anchored re_at_def
    by (cases ln) (auto simp: is_cu_def rmatch_rep_chr_Suc split: list.splits)
  also have "\<dots> \<longleftrightarrow> (\<exists>x xs. ln = 124 # x # xs \<and> isSepChar x
             \<and> (\<exists>n \<le> length (takeWhile isSepChar xs). drop n xs = [124]))"
    unfolding rmatch_star_chr_iff k by simp
  also have "\<dots> \<longleftrightarrow> (\<exists>w. w \<noteq> [] \<and> ln = 124 # w @ [124] \<and> (\<forall>x \<in> set w. isSepChar x))"
    (is "?L \<longleftrightarrow> ?R")
  proof
    assume ?L
    then obtain x xs n where h: "ln = 124 # x # xs" "isSepChar x"
      "n \<le> length (takeWhile isSepChar xs)" "drop n xs = [124]" by blast
    have xs: "xs = take n xs @ [124]" using h(4) by (metis append_take_drop_id)
    have "take n xs = take n (takeWhile isSepChar xs)"
      using h(3) by (metis takeWhile_dropWhile_id take_append diff_is_0_eq' append.right_neutral take_0)
    then have "\<forall>y \<in> set (take n xs). isSepChar y"
      by (metis in_set_takeD set_takeWhileD)
    with h(1,2) xs show ?R
      by (intro exI[of _ "x # take n xs"]) auto
  next
    assume ?R
    then obtain w where w: "w \<noteq> []" "ln = 124 # w @ [124]" "\<forall>x \<in> set w. isSepChar x" by blast
    then obtain x w' where ww: "w = x # w'" by (cases w) auto
    have "takeWhile isSepChar (w' @ [124]) = w' @ takeWhile isSepChar [124]"
      using w(3) ww by simp
    then have "length w' \<le> length (takeWhile isSepChar (w' @ [124]))" by simp
    with w ww show ?L
      by (intro exI[of _ x] exI[of _ "w' @ [124]"]) (auto intro: exI[of _ "length w'"])
  qed
  finally show ?thesis .
qed


definition ciPrefix :: "jstring \<Rightarrow> jstring \<Rightarrow> bool" where
  "ciPrefix w a \<longleftrightarrow> length w \<le> length a \<and> map canon (take (length w) a) = map canon w"

lemma rmatch_liti:
  "w \<noteq> [] \<Longrightarrow>
   rmatch (liti w) (b, a, c) k =
     (if ciPrefix w a then k (rev (take (length w) a) @ b, drop (length w) a, c) else None)"
proof (induction w arbitrary: b a rule: liti.induct)
  case 1
  then show ?case by simp
next
  case (2 x)
  show ?case by (cases a) (auto simp: ciPrefix_def is_ci_def)
next
  case (3 x y ys)
  have ih: "rmatch (liti (y # ys)) (b', a', c) k =
     (if ciPrefix (y # ys) a' then k (rev (take (length (y # ys)) a') @ b', drop (length (y # ys)) a', c) else None)"
    for b' a'
    by (rule 3) simp
  show ?case
  proof (cases a)
    case Nil
    then show ?thesis by (simp add: ciPrefix_def)
  next
    case (Cons z zs)
    show ?thesis unfolding Cons
      by (simp add: ih is_ci_def) (auto simp: ciPrefix_def)
  qed
qed

lemma re_search_iff:
  "re_search r b a \<noteq> None \<longleftrightarrow> (\<exists>n \<le> length a. re_at r (rev (take n a) @ b) (drop n a) \<noteq> None)"
proof (induction a arbitrary: b)
  case Nil
  show ?case by simp
next
  case (Cons x xs)
  have "re_search r b (x # xs) \<noteq> None \<longleftrightarrow>
          re_at r b (x # xs) \<noteq> None \<or> re_search r (x # b) xs \<noteq> None"
    by (auto split: option.splits)
  also have "\<dots> \<longleftrightarrow> re_at r b (x # xs) \<noteq> None
               \<or> (\<exists>n \<le> length xs. re_at r (rev (take n xs) @ x # b) (drop n xs) \<noteq> None)"
    by (simp only: Cons.IH)
  also have "\<dots> \<longleftrightarrow> (\<exists>n \<le> length (x # xs). re_at r (rev (take n (x # xs)) @ b) (drop n (x # xs)) \<noteq> None)"
    (is "?L \<longleftrightarrow> ?R")
  proof
    assume ?L
    then show ?R
    proof
      assume "re_at r b (x # xs) \<noteq> None"
      then show ?R by (intro exI[of _ 0]) simp
    next
      assume "\<exists>n \<le> length xs. re_at r (rev (take n xs) @ x # b) (drop n xs) \<noteq> None"
      then obtain n where "n \<le> length xs" "re_at r (rev (take n xs) @ x # b) (drop n xs) \<noteq> None" by blast
      then show ?R by (intro exI[of _ "Suc n"]) simp
    qed
  next
    assume ?R
    then obtain n where n: "n \<le> length (x # xs)"
      "re_at r (rev (take n (x # xs)) @ b) (drop n (x # xs)) \<noteq> None" by blast
    show ?L
    proof (cases n)
      case 0
      with n show ?thesis by simp
    next
      case (Suc m)
      with n show ?thesis by auto
    qed
  qed
  finally show ?case .
qed

section \<open>Table extraction\<close>

text \<open>A header or data row of a table is the cell list of a line of the text that is a
  table row and not a separator.\<close>

definition fromDataRow :: "jstring list \<Rightarrow> jstring list \<Rightarrow> bool" where
  "fromDataRow lines cells \<longleftrightarrow>
     (\<exists>l \<in> set lines. isTableRow (trim l) \<and> \<not> re_test separatorRe (trim l)
                       \<and> cells = rowCells (trim l))"

definition headerAt :: "jstring list \<Rightarrow> int \<Rightarrow> jstring list \<Rightarrow> bool" where
  "headerAt lines n cells \<longleftrightarrow>
     (\<exists>j < length lines. n = int j \<and> isTableRow (trim (lines ! j))
                         \<and> \<not> re_test separatorRe (trim (lines ! j))
                         \<and> cells = rowCells (trim (lines ! j)))"

definition tableOk :: "jstring list \<Rightarrow> ExtractedTable \<Rightarrow> bool" where
  "tableOk lines t \<longleftrightarrow>
     headerAt lines (t_startLine t) (t_headers t) \<and> (\<forall>r \<in> set (t_rows t). fromDataRow lines r)"

definition scanOk :: "jstring list \<Rightarrow> TableScan \<Rightarrow> bool" where
  "scanOk lines st \<longleftrightarrow>
     (\<forall>t \<in> set (tables st). tableOk lines t)
     \<and> (inTable st \<longrightarrow> headerAt lines (startLine st) (currentHeaders st))
     \<and> (\<forall>r \<in> set (currentRows st). fromDataRow lines r)"

lemma tableStep_ok:
  assumes "scanOk lines st" "i < length lines" "lines ! i = raw"
  shows "scanOk lines (tableStep st i raw)"
proof -
  have mem: "raw \<in> set lines" using assms(2,3) by auto
  show ?thesis
  proof (cases "isTableRow (trim raw)")
    case False
    then show ?thesis using assms(1)
      by (auto simp: tableStep_def Let_def scanOk_def pushTable_def tableOk_def)
  next
    case row: True
    show ?thesis
    proof (cases "re_test separatorRe (trim raw)")
      case True
      with row assms(1) show ?thesis by (simp add: tableStep_def Let_def)
    next
      case False
      have r: "fromDataRow lines (rowCells (trim raw))"
        unfolding fromDataRow_def using mem row False by blast
      have h: "headerAt lines (int i) (rowCells (trim raw))"
        unfolding headerAt_def using assms(2,3) row False by blast
      show ?thesis using assms(1) row False r h
        by (auto simp: tableStep_def Let_def scanOk_def)
    qed
  qed
qed

lemma tableLoop_ok:
  "scanOk lines st \<Longrightarrow> lines = done @ rest \<Longrightarrow> i = length done \<Longrightarrow>
     scanOk lines (tableLoop st i rest)"
proof (induction rest arbitrary: st i "done")
  case Nil
  then show ?case by simp
next
  case (Cons raw rest)
  have "scanOk lines (tableStep st i raw)"
    using Cons.prems by (intro tableStep_ok) auto
  moreover have "lines = (done @ [raw]) @ rest" using Cons.prems by simp
  moreover have "Suc i = length (done @ [raw])" using Cons.prems by simp
  ultimately have "scanOk lines (tableLoop (tableStep st i raw) (Suc i) rest)"
    by (rule Cons.IH)
  then show ?case by simp
qed

lemma extractTables_ok: "t \<in> set (extractTables src) \<Longrightarrow> tableOk (splitOn 10 src) t"
proof -
  have "scanOk (splitOn 10 src) tableScan0" by (simp add: scanOk_def tableScan0_def)
  then have ok: "scanOk (splitOn 10 src) (tableLoop tableScan0 0 (splitOn 10 src))"
    by (rule tableLoop_ok[where ?done = "[]"]) simp_all
  assume "t \<in> set (extractTables src)"
  with ok show ?thesis
    by (auto simp: extractTables_def Let_def scanOk_def pushTable_def tableOk_def split: if_splits)
qed

lemmas tbl_ev = extractTables_def tableScan0_def tableStep_def isTableRow_def rowCells_def
  pushTable_def separatorRe_def

text \<open>
  C8. In every table returned by \<open>extractTables\<close>, the header is the cell list of the
  line \<open>startLine\<close>, which is a table row and not a separator row, and every data row is
  the cell list, as split and not padded, of a line that is a table row and not a
  separator row. A separator row is a line that is a pipe, then one or more pipes,
  dashes, colons and white space, then a pipe. An iteration on a separator row leaves
  all variables of the loop as they are, so it neither starts nor ends a table. A table
  can have more header cells than cells in a data row: \<open>| a | b |\<close> followed by
  \<open>| c |\<close>.
\<close>

theorem no_separator_rows:
  "(\<forall>t \<in> set (extractTables src).
       (\<exists>j < length (splitOn 10 src). t_startLine t = int j
            \<and> isTableRow (trim (splitOn 10 src ! j))
            \<and> \<not> re_test separatorRe (trim (splitOn 10 src ! j))
            \<and> t_headers t = rowCells (trim (splitOn 10 src ! j)))
     \<and> (\<forall>r \<in> set (t_rows t).
            \<exists>l \<in> set (splitOn 10 src). isTableRow (trim l) \<and> \<not> re_test separatorRe (trim l)
                                       \<and> r = rowCells (trim l)))
   \<and> (re_test separatorRe ln \<longleftrightarrow>
        (\<exists>w. w \<noteq> [] \<and> ln = 124 # w @ [124]
             \<and> (\<forall>x \<in> set w. isSpace x \<or> x = 45 \<or> x = 58 \<or> x = 124)))
   \<and> (re_test separatorRe (trim raw) \<longrightarrow> tableStep st i raw = st)
   \<and> extractTables (js ''| a | b |'' @ [10] @ js ''| c |'')
       = [\<lparr>t_headers = [js ''a'', js ''b''], t_rows = [[js ''c'']], t_startLine = 0\<rparr>]"
proof -
  have a: "\<forall>t \<in> set (extractTables src).
       (\<exists>j < length (splitOn 10 src). t_startLine t = int j
            \<and> isTableRow (trim (splitOn 10 src ! j))
            \<and> \<not> re_test separatorRe (trim (splitOn 10 src ! j))
            \<and> t_headers t = rowCells (trim (splitOn 10 src ! j)))
     \<and> (\<forall>r \<in> set (t_rows t).
            \<exists>l \<in> set (splitOn 10 src). isTableRow (trim l) \<and> \<not> re_test separatorRe (trim l)
                                       \<and> r = rowCells (trim l))"
    using extractTables_ok[of _ src] unfolding tableOk_def headerAt_def fromDataRow_def by blast
  have b: "re_test separatorRe ln \<longleftrightarrow>
        (\<exists>w. w \<noteq> [] \<and> ln = 124 # w @ [124]
             \<and> (\<forall>x \<in> set w. isSpace x \<or> x = 45 \<or> x = 58 \<or> x = 124))"
    using separator_iff[of ln] by (simp add: isSepChar_def)
  have c: "re_test separatorRe (trim raw) \<longrightarrow> tableStep st i raw = st"
  proof
    assume h: "re_test separatorRe (trim raw)"
    then obtain w where "trim raw = 124 # w @ [124]" using separator_iff by blast
    then have "isTableRow (trim raw)" by (simp add: isTableRow_def startsWith_def endsWith_def js_def)
    with h show "tableStep st i raw = st" by (simp add: tableStep_def Let_def)
  qed
  have d: "extractTables (js ''| a | b |'' @ [10] @ js ''| c |'')
       = [\<lparr>t_headers = [js ''a'', js ''b''], t_rows = [[js ''c'']], t_startLine = 0\<rparr>]"
    by (simp add: tbl_ev str_ev)
  from a b c d show ?thesis by blast
qed

theorem no_separator_rows_witness:
  "extractTables (js ''|---|'' @ [10] @ js ''| a | b |'' @ [10] @ js ''| - | :-: |'' @ [10] @ js ''| c |'' @ [10] @ js ''x'')
       = [\<lparr>t_headers = [js ''a'', js ''b''], t_rows = [[js ''c'']], t_startLine = 1\<rparr>]
   \<and> re_test separatorRe (js ''| - | :-: |'')
   \<and> \<not> re_test separatorRe (js ''| c |'')"
  using no_separator_rows [of "js ''|---|'' @ [10] @ js ''| a | b |'' @ [10] @ js ''| - | :-: |'' @ [10] @ js ''| c |'' @ [10] @ js ''x''"
      "js ''| - | :-: |''" "js ''| - | :-: |''" tableScan0 2]
  by (simp add: tbl_ev str_ev)

section \<open>Content type\<close>

text \<open>Some line of the text starts, up to the case of ASCII letters, with one of the
  words; a line starts at the start of the text and after each line terminator.\<close>

definition lineStartsWithCI :: "jstring \<Rightarrow> jstring list \<Rightarrow> bool" where
  "lineStartsWithCI src ws \<longleftrightarrow>
     (\<exists>pre post. src = pre @ post \<and> (pre = [] \<or> isLineTerminator (last pre))
                 \<and> (\<exists>w \<in> set ws. ciPrefix w post))"

lemma line_keyword_at:
  assumes "w1 \<noteq> []" "w2 \<noteq> []" "w3 \<noteq> []"
  shows "re_at (Seq (Bol True) (Grp 1 (Alt (liti w1) (Alt (liti w2) (liti w3))))) b a \<noteq> None \<longleftrightarrow>
          (b = [] \<or> isLineTerminator (hd b)) \<and> (ciPrefix w1 a \<or> ciPrefix w2 a \<or> ciPrefix w3 a)"
  using assms by (cases b) (auto simp: re_at_def rmatch_liti split: option.splits)

lemma line_keyword_at4:
  assumes "w1 \<noteq> []" "w2 \<noteq> []" "w3 \<noteq> []" "w4 \<noteq> []"
  shows "re_at (Seq (Bol True) (Grp 1 (Alt (liti w1) (Alt (liti w2) (Alt (liti w3) (liti w4)))))) b a \<noteq> None \<longleftrightarrow>
          (b = [] \<or> isLineTerminator (hd b))
          \<and> (ciPrefix w1 a \<or> ciPrefix w2 a \<or> ciPrefix w3 a \<or> ciPrefix w4 a)"
  using assms by (cases b) (auto simp: re_at_def rmatch_liti split: option.splits)

lemma split_positions:
  "(\<exists>n \<le> length s. P (rev (take n s)) (drop n s)) \<longleftrightarrow> (\<exists>pre post. s = pre @ post \<and> P (rev pre) post)"
proof
  assume "\<exists>n \<le> length s. P (rev (take n s)) (drop n s)"
  then obtain n where "P (rev (take n s)) (drop n s)" by blast
  then show "\<exists>pre post. s = pre @ post \<and> P (rev pre) post"
    by (intro exI[of _ "take n s"] exI[of _ "drop n s"]) simp
next
  assume "\<exists>pre post. s = pre @ post \<and> P (rev pre) post"
  then obtain pre post where "s = pre @ post" "P (rev pre) post" by blast
  then show "\<exists>n \<le> length s. P (rev (take n s)) (drop n s)"
    by (intro exI[of _ "length pre"]) simp
qed

lemma hd_rev_last: "pre \<noteq> [] \<Longrightarrow> hd (rev pre) = last pre"
  by (simp add: hd_rev)

lemma letter_iff:
  "re_test letterRe src \<longleftrightarrow> lineStartsWithCI src [js ''dear'', js ''sincerely'', js ''regards'']"
proof -
  have ne: "js ''dear'' \<noteq> []" "js ''sincerely'' \<noteq> []" "js ''regards'' \<noteq> []"
    by (simp_all add: js_def)
  have "re_test letterRe src \<longleftrightarrow>
      (\<exists>n \<le> length src. (\<lambda>b a. (b = [] \<or> isLineTerminator (hd b))
          \<and> (ciPrefix (js ''dear'') a \<or> ciPrefix (js ''sincerely'') a \<or> ciPrefix (js ''regards'') a))
          (rev (take n src)) (drop n src))"
    unfolding re_test_def re_exec_def re_search_iff letterRe_def
    using line_keyword_at[OF ne] by simp
  also have "\<dots> \<longleftrightarrow> (\<exists>pre post. src = pre @ post \<and> (rev pre = [] \<or> isLineTerminator (hd (rev pre)))
          \<and> (ciPrefix (js ''dear'') post \<or> ciPrefix (js ''sincerely'') post \<or> ciPrefix (js ''regards'') post))"
    by (rule split_positions)
  also have "\<dots> \<longleftrightarrow> lineStartsWithCI src [js ''dear'', js ''sincerely'', js ''regards'']"
    unfolding lineStartsWithCI_def by (metis hd_rev_last rev_is_Nil_conv list.set_intros(1) set_ConsD
        list.set_intros(2) empty_iff list.set(1))
  finally show ?thesis .
qed


lemma report_iff:
  "re_test reportRe src \<longleftrightarrow>
     lineStartsWithCI src [js ''abstract'', js ''introduction'', js ''conclusion'', js ''references'']"
proof -
  have ne: "js ''abstract'' \<noteq> []" "js ''introduction'' \<noteq> []" "js ''conclusion'' \<noteq> []"
    "js ''references'' \<noteq> []"
    by (simp_all add: js_def)
  have "re_test reportRe src \<longleftrightarrow>
      (\<exists>n \<le> length src. (\<lambda>b a. (b = [] \<or> isLineTerminator (hd b))
          \<and> (ciPrefix (js ''abstract'') a \<or> ciPrefix (js ''introduction'') a
              \<or> ciPrefix (js ''conclusion'') a \<or> ciPrefix (js ''references'') a))
          (rev (take n src)) (drop n src))"
    unfolding re_test_def re_exec_def re_search_iff reportRe_def
    using line_keyword_at4[OF ne] by simp
  also have "\<dots> \<longleftrightarrow> (\<exists>pre post. src = pre @ post \<and> (rev pre = [] \<or> isLineTerminator (hd (rev pre)))
          \<and> (ciPrefix (js ''abstract'') post \<or> ciPrefix (js ''introduction'') post
              \<or> ciPrefix (js ''conclusion'') post \<or> ciPrefix (js ''references'') post))"
    by (rule split_positions)
  also have "\<dots> \<longleftrightarrow> lineStartsWithCI src
        [js ''abstract'', js ''introduction'', js ''conclusion'', js ''references'']"
    unfolding lineStartsWithCI_def by (metis hd_rev_last rev_is_Nil_conv list.set_intros(1) set_ConsD
        list.set_intros(2) empty_iff list.set(1))
  finally show ?thesis .
qed

text \<open>The classification in the words of the specification: starting at \<open>general\<close>, the
  rules are applied in order, and each rule that applies overwrites the result.\<close>

definition overrides :: "(bool \<times> ContentType) list \<Rightarrow> ContentType" where
  "overrides rules = foldl (\<lambda>result (applies, ty). if applies then ty else result) ct_general rules"

definition articleCond :: "nat \<Rightarrow> nat \<Rightarrow> bool" where
  "articleCond nHeadings nParagraphs \<longleftrightarrow> nHeadings \<ge> 3 \<and> nParagraphs \<ge> 5"

definition notesCond :: "nat \<Rightarrow> nat \<Rightarrow> bool" where
  "notesCond nHeadings nParagraphs \<longleftrightarrow> nHeadings \<le> 2 \<and> nParagraphs \<le> 3"

definition reportCond :: "jstring \<Rightarrow> bool" where
  "reportCond src \<longleftrightarrow>
     lineStartsWithCI src [js ''abstract'', js ''introduction'', js ''conclusion'', js ''references'']"

definition letterCond :: "jstring \<Rightarrow> bool" where
  "letterCond src \<longleftrightarrow> lineStartsWithCI src [js ''dear'', js ''sincerely'', js ''regards'']"

definition specContentType :: "nat \<Rightarrow> nat \<Rightarrow> jstring \<Rightarrow> ContentType" where
  "specContentType nHeadings nParagraphs src =
     overrides [(articleCond nHeadings nParagraphs, ct_article), (reportCond src, ct_report),
                (letterCond src, ct_letter), (notesCond nHeadings nParagraphs, ct_notes)]"

lemma classifyContent_spec: "classifyContent n p src = specContentType n p src"
  by (simp add: classifyContent_def specContentType_def overrides_def articleCond_def
        notesCond_def reportCond_def letterCond_def report_iff letter_iff Let_def)

text \<open>
  C4. The content type computed by \<open>analyzeDocs\<close> is the result of the ordered
  overrides: \<open>general\<close>, then \<open>article\<close> with at least 3 headings and 5 paragraphs, then
  \<open>report\<close> when a line starts with one of its four words, then \<open>letter\<close> when a line
  starts with one of its three words, then \<open>notes\<close> with at most 2 headings and 3
  paragraphs, a later rule overwriting an earlier one. The conditions of \<open>article\<close> and
  \<open>notes\<close> never hold together; when that of \<open>notes\<close> holds the result is \<open>notes\<close>; when
  those of \<open>article\<close> and \<open>letter\<close> hold and that of \<open>notes\<close> does not, it is \<open>letter\<close>.
\<close>

theorem content_type_overrides:
  "\<exists>hs d. extractHeadings src = Some hs \<and> analyzeDocs src title = Some d
      \<and> d_contentType d = specContentType (length hs) (countParagraphs src) src
      \<and> \<not> (articleCond (length hs) (countParagraphs src) \<and> notesCond (length hs) (countParagraphs src))
      \<and> (notesCond (length hs) (countParagraphs src) \<longrightarrow> d_contentType d = ct_notes)
      \<and> (articleCond (length hs) (countParagraphs src) \<and> letterCond src
           \<and> \<not> notesCond (length hs) (countParagraphs src) \<longrightarrow> d_contentType d = ct_letter)"
proof -
  obtain hs where hs: "extractHeadings src = Some hs" using extractHeadings_total by blast
  obtain d where d: "analyzeDocs src title = Some d" using analyzeDocs_total by blast
  from hs d have ct: "d_contentType d = classifyContent (length hs) (countParagraphs src) src"
    by (auto simp: analyzeDocs_def Let_def)
  have "d_contentType d = specContentType (length hs) (countParagraphs src) src"
    using ct by (simp add: classifyContent_spec)
  moreover have "\<not> (articleCond (length hs) (countParagraphs src) \<and> notesCond (length hs) (countParagraphs src))"
    by (simp add: articleCond_def notesCond_def)
  moreover have "notesCond (length hs) (countParagraphs src) \<longrightarrow> d_contentType d = ct_notes"
    using ct by (simp add: classifyContent_def notesCond_def Let_def)
  moreover have "articleCond (length hs) (countParagraphs src) \<and> letterCond src
           \<and> \<not> notesCond (length hs) (countParagraphs src) \<longrightarrow> d_contentType d = ct_letter"
    using ct by (simp add: classifyContent_def notesCond_def letterCond_def letter_iff Let_def)
  ultimately show ?thesis using hs d by blast
qed

lemmas docs_ev = analyzeDocs_def extractHeadings_def headingGmRe_def headingOf_def countParagraphs_def
  countWords_def frontmatterRe_def classifyContent_def reportRe_def letterRe_def

lemma wit4a: "extractHeadings (js ''Dear Sir,'' @ [10, 10] @ js ''# A'' @ [10] @ js ''# B'' @ [10] @ js ''# C'' @ [10, 10] @ js ''p'' @ [10, 10] @ js ''q'' @ [10, 10] @ js ''r'' @ [10, 10] @ js ''s'')
    = Some [\<lparr>h_level = 1, h_text = js ''A''\<rparr>, \<lparr>h_level = 1, h_text = js ''B''\<rparr>, \<lparr>h_level = 1, h_text = js ''C''\<rparr>]"
  by (simp add: docs_ev str_ev)

lemma wit4b: "countParagraphs (js ''Dear Sir,'' @ [10, 10] @ js ''# A'' @ [10] @ js ''# B'' @ [10] @ js ''# C'' @ [10, 10] @ js ''p'' @ [10, 10] @ js ''q'' @ [10, 10] @ js ''r'' @ [10, 10] @ js ''s'') = 5"
  by (simp add: docs_ev str_ev)

lemma wit4c: "re_test letterRe (js ''Dear Sir,'' @ [10, 10] @ js ''# A'' @ [10] @ js ''# B'' @ [10] @ js ''# C'' @ [10, 10] @ js ''p'' @ [10, 10] @ js ''q'' @ [10, 10] @ js ''r'' @ [10, 10] @ js ''s'')"
  by (simp add: docs_ev str_ev)

theorem content_type_overrides_witness:
  "map_option d_contentType
     (analyzeDocs (js ''Dear Sir,'' @ [10, 10] @ js ''# A'' @ [10] @ js ''# B'' @ [10] @ js ''# C'' @ [10, 10] @ js ''p'' @ [10, 10] @ js ''q'' @ [10, 10] @ js ''r'' @ [10, 10] @ js ''s'') (js ''t''))
     = Some ct_letter
   \<and> articleCond 3 5 \<and> \<not> notesCond 3 5"
proof -
  let ?src = "js ''Dear Sir,'' @ [10, 10] @ js ''# A'' @ [10] @ js ''# B'' @ [10] @ js ''# C'' @ [10, 10] @ js ''p'' @ [10, 10] @ js ''q'' @ [10, 10] @ js ''r'' @ [10, 10] @ js ''s''"
  from content_type_overrides [of ?src "js ''t''"] obtain hs d where
    h: "extractHeadings ?src = Some hs" "analyzeDocs ?src (js ''t'') = Some d"
       "articleCond (length hs) (countParagraphs ?src) \<and> letterCond ?src
           \<and> \<not> notesCond (length hs) (countParagraphs ?src) \<longrightarrow> d_contentType d = ct_letter"
    by blast
  from h(1) have l: "length hs = 3" unfolding wit4a by auto
  have "letterCond ?src" using wit4c by (simp add: letterCond_def letter_iff)
  with h(3) l have "d_contentType d = ct_letter"
    unfolding wit4b by (simp add: articleCond_def notesCond_def)
  with h(2) show ?thesis by (simp add: articleCond_def notesCond_def)
qed

section \<open>DocsConverter\<close>

text \<open>The batch-update requests that \<open>markdownToDocsRequests\<close> builds. Indices are
  JavaScript numbers; they are integers here.\<close>

datatype Request =
    InsertText int jstring
  | UpdateParagraphStyle int int jstring
  | UpdateTextStyle int int jstring

record ParsedLine =
  pl_text :: jstring
  pl_style :: "jstring option"
  pl_isList :: bool
  pl_listType :: "jstring option"

text \<open>\<open>/^(#{1,6})\s+(.+)$/\<close>\<close>

definition docHeadingRe :: re where
  "docHeadingRe =
     seq [Bol False, Grp 1 (Rep True 1 (Some 6) (Chr (is_cu 35))), plus (Chr isSpace),
          Grp 2 (plus (Chr dot)), Eol False]"

definition headingStyles :: "nat \<rightharpoonup> jstring" where
  "headingStyles =
     [1 \<mapsto> js ''HEADING_1'', 2 \<mapsto> js ''HEADING_2'', 3 \<mapsto> js ''HEADING_3'',
      4 \<mapsto> js ''HEADING_4'', 5 \<mapsto> js ''HEADING_5'', 6 \<mapsto> js ''HEADING_6'']"

text \<open>The bullet prefix is the four code units that the source file holds between the
  quotes.\<close>

definition bulletPrefix :: jstring where
  "bulletPrefix = [226, 8364, 162, 32]"

definition parseLine :: "jstring \<Rightarrow> ParsedLine option" where
  "parseLine ln =
     (case re_exec docHeadingRe ln of
        Some headingMatch \<Rightarrow>
          do {
            g1 \<leftarrow> grp headingMatch 1;
            g2 \<leftarrow> grp headingMatch 2;
            Some \<lparr>pl_text = g2, pl_style = headingStyles (length g1), pl_isList = False,
                  pl_listType = None\<rparr>
          }
      | None \<Rightarrow>
         (case re_exec ulRe ln of
            Some ulMatch \<Rightarrow>
              do {
                g \<leftarrow> grp ulMatch 1;
                Some \<lparr>pl_text = bulletPrefix @ g, pl_style = None, pl_isList = True,
                      pl_listType = Some (js ''BULLET'')\<rparr>
              }
          | None \<Rightarrow>
             (case re_exec olRe ln of
                Some olMatch \<Rightarrow>
                  do {
                    g \<leftarrow> grp olMatch 1;
                    Some \<lparr>pl_text = g, pl_style = None, pl_isList = True,
                          pl_listType = Some (js ''NUMBER'')\<rparr>
                  }
              | None \<Rightarrow>
                  Some \<lparr>pl_text = ln, pl_style = None, pl_isList = False, pl_listType = None\<rparr>)))"

text \<open>\<open>text.indexOf(s)\<close>: the first index at which \<open>s\<close> occurs, or -1.\<close>

fun indexOf :: "jstring \<Rightarrow> jstring \<Rightarrow> int" where
  "indexOf [] p = (if p = [] then 0 else - 1)"
| "indexOf (x # xs) p =
     (if startsWith (x # xs) p then 0
      else (let r = indexOf xs p in if r < 0 then - 1 else r + 1))"

text \<open>\<open>/\*\*([^*]+)\*\*|__([^_]+)__/g\<close> and
  \<open>/(?<!\*)\*([^*]+)\*(?!\*)|(?<!_)_([^_]+)_(?!_)/g\<close>\<close>

definition boldRe :: re where
  "boldRe =
     Alt (seq [lit (js ''**''), Grp 1 (plus (Chr (\<lambda>x. x \<noteq> 42))), lit (js ''**'')])
         (seq [lit (js ''__''), Grp 2 (plus (Chr (\<lambda>x. x \<noteq> 95))), lit (js ''__'')])"

definition italicRe :: re where
  "italicRe =
     Alt (seq [NotBehind (is_cu 42), Chr (is_cu 42), Grp 1 (plus (Chr (\<lambda>x. x \<noteq> 42))),
               Chr (is_cu 42), NotAhead (is_cu 42)])
         (seq [NotBehind (is_cu 95), Chr (is_cu 95), Grp 2 (plus (Chr (\<lambda>x. x \<noteq> 95))),
               Chr (is_cu 95), NotAhead (is_cu 95)])"

text \<open>\<open>match[1] || match[2]\<close>, whose \<open>length\<close> is read next.\<close>

definition group1or2 :: "rmatched \<Rightarrow> jstring option" where
  "group1or2 m = (case grp m 1 of Some (x # xs) \<Rightarrow> Some (x # xs) | _ \<Rightarrow> grp m 2)"

definition styleRequest :: "jstring \<Rightarrow> int \<Rightarrow> int \<Rightarrow> jstring \<Rightarrow> rmatched \<Rightarrow> Request option" where
  "styleRequest txt startIndex extra field m =
     do {
       styled \<leftarrow> group1or2 m;
       let textStartIndex = indexOf txt (m_text m);
       Some (UpdateTextStyle (startIndex + textStartIndex)
               (startIndex + textStartIndex + int (length styled) + extra) field)
     }"

definition createFormattingRequests :: "jstring \<Rightarrow> int \<Rightarrow> Request list option" where
  "createFormattingRequests txt startIndex =
     do {
       bolds \<leftarrow> re_exec_all boldRe txt;
       boldRequests \<leftarrow> those (map (styleRequest txt startIndex 4 (js ''bold'')) bolds);
       italics \<leftarrow> re_exec_all italicRe txt;
       italicRequests \<leftarrow> those (map (styleRequest txt startIndex 2 (js ''italic'')) italics);
       Some (boldRequests @ italicRequests)
     }"

text \<open>The loop over the lines, with the cursor \<open>insertIndex\<close>.\<close>

fun requestLoop :: "int \<Rightarrow> jstring list \<Rightarrow> Request list option" where
  "requestLoop insertIndex [] = Some []"
| "requestLoop insertIndex (ln # rest) =
     do {
       pl \<leftarrow> parseLine ln;
       if pl_text pl = [] \<and> \<not> pl_isList pl then
         do {
           more \<leftarrow> requestLoop (insertIndex + 1) rest;
           Some (InsertText insertIndex [10] # more)
         }
       else
         do {
           let textToInsert = pl_text pl @ [10];
           let styleRequests =
                 (case pl_style pl of
                    Some style \<Rightarrow>
                      [UpdateParagraphStyle insertIndex (insertIndex + int (length textToInsert)) style]
                  | None \<Rightarrow> []);
           formattingRequests \<leftarrow> createFormattingRequests (pl_text pl) insertIndex;
           more \<leftarrow> requestLoop (insertIndex + int (length textToInsert)) rest;
           Some (InsertText insertIndex textToInsert # styleRequests @ formattingRequests @ more)
         }
     }"

definition markdownToDocsRequests :: "jstring \<Rightarrow> Request list option" where
  "markdownToDocsRequests markdown = requestLoop 1 (splitOn 10 markdown)"

text \<open>The \<open>insertText\<close> requests of a sequence, as pairs of index and text.\<close>

fun insertTexts :: "Request list \<Rightarrow> (int \<times> jstring) list" where
  "insertTexts [] = []"
| "insertTexts (InsertText i t # rs) = (i, t) # insertTexts rs"
| "insertTexts (_ # rs) = insertTexts rs"

text \<open>A cursor that starts at \<open>i\<close> and moves on by the length of each inserted text.\<close>

fun running :: "int \<Rightarrow> (int \<times> jstring) list \<Rightarrow> bool" where
  "running i [] = True"
| "running i ((j, t) # rest) = (j = i \<and> running (i + int (length t)) rest)"

lemma parseLine_total: "\<exists>pl. parseLine ln = Some pl"
proof (cases "re_exec docHeadingRe ln")
  case (Some m)
  from grp_defined[OF Some, of 1] obtain g1 where g1: "grp m 1 = Some g1"
    by (auto simp: docHeadingRe_def)
  from grp_defined[OF Some, of 2] obtain g2 where g2: "grp m 2 = Some g2"
    by (auto simp: docHeadingRe_def)
  from Some g1 g2 show ?thesis by (simp add: parseLine_def)
next
  case None
  show ?thesis
  proof (cases "re_exec ulRe ln")
    case (Some m)
    from grp_defined[OF Some, of 1] obtain g where "grp m 1 = Some g" by (auto simp: ulRe_def)
    with Some None show ?thesis by (simp add: parseLine_def)
  next
    case N2: None
    show ?thesis
    proof (cases "re_exec olRe ln")
      case (Some m)
      from grp_defined[OF Some, of 1] obtain g where "grp m 1 = Some g" by (auto simp: olRe_def)
      with Some None N2 show ?thesis by (simp add: parseLine_def)
    next
      case N3: None
      with None N2 show ?thesis by (simp add: parseLine_def)
    qed
  qed
qed

lemma group1or2_total:
  assumes "grp m 1 \<noteq> None \<or> grp m 2 \<noteq> None" "grp m 1 \<noteq> Some []"
  shows "\<exists>g. group1or2 m = Some g"
  using assms by (auto simp: group1or2_def split: option.splits list.splits)

lemma style_requests_total:
  assumes "nonempty r" "sets_one r {1, 2}" "fills r 1"
  shows "\<exists>rs. (re_exec_all r s \<bind> (\<lambda>ms. those (map (styleRequest s i extra field) ms))) = Some rs
              \<and> insertTexts rs = []"
proof -
  from exec_loop_total[OF assms(1), of "[]" s] obtain ms where
    ms: "re_exec_all r s = Some ms"
        "\<forall>m \<in> set ms. (\<forall>ns. sets_one r ns \<longrightarrow> (\<exists>n \<in> ns. grp m n \<noteq> None))
           \<and> (\<forall>n. fills r n \<longrightarrow> grp m n \<noteq> Some [])"
    unfolding re_exec_all_def by blast
  have each: "\<exists>a b. styleRequest s i extra field m = Some (UpdateTextStyle a b field)"
    if "m \<in> set ms" for m
  proof -
    from ms(2) that assms(2,3) have "grp m 1 \<noteq> None \<or> grp m 2 \<noteq> None" "grp m 1 \<noteq> Some []"
      by fastforce+
    from group1or2_total[OF this] obtain g where "group1or2 m = Some g" by blast
    then show ?thesis by (simp add: styleRequest_def Let_def)
  qed
  have "\<exists>rs. those (map (styleRequest s i extra field) ms) = Some rs \<and> insertTexts rs = []"
    using each
  proof (induction ms)
    case Nil
    show ?case by simp
  next
    case (Cons m ms)
    from Cons.prems[of m] obtain a b where
      m: "styleRequest s i extra field m = Some (UpdateTextStyle a b field)" by auto
    from Cons.IH Cons.prems obtain rs where
      "those (map (styleRequest s i extra field) ms) = Some rs" "insertTexts rs = []" by auto
    with m show ?case by simp
  qed
  with ms(1) show ?thesis by simp
qed

lemma insertTexts_append: "insertTexts (xs @ ys) = insertTexts xs @ insertTexts ys"
  by (induction xs rule: insertTexts.induct) simp_all

lemma createFormattingRequests_total:
  "\<exists>rs. createFormattingRequests s i = Some rs \<and> insertTexts rs = []"
proof -
  have b: "nonempty boldRe" "sets_one boldRe {1, 2}" "fills boldRe 1"
    by (simp_all add: boldRe_def js_def)
  have it: "nonempty italicRe" "sets_one italicRe {1, 2}" "fills italicRe 1"
    by (simp_all add: italicRe_def js_def)
  from style_requests_total[OF b, of s i 4 "js ''bold''"] obtain rs1 where
    rs1: "(re_exec_all boldRe s \<bind> (\<lambda>ms. those (map (styleRequest s i 4 (js ''bold'')) ms))) = Some rs1"
    "insertTexts rs1 = []" by blast
  from style_requests_total[OF it, of s i 2 "js ''italic''"] obtain rs2 where
    rs2: "(re_exec_all italicRe s \<bind> (\<lambda>ms. those (map (styleRequest s i 2 (js ''italic'')) ms))) = Some rs2"
    "insertTexts rs2 = []" by blast
  from rs1(1) rs2(1) have "createFormattingRequests s i = Some (rs1 @ rs2)"
    by (auto simp: createFormattingRequests_def split: bind_splits)
  with rs1(2) rs2(2) show ?thesis by (simp add: insertTexts_append)
qed

lemma requestLoop_running:
  "\<exists>reqs. requestLoop i lns = Some reqs \<and> running i (insertTexts reqs)
          \<and> length (insertTexts reqs) = length lns"
proof (induction lns arbitrary: i)
  case Nil
  show ?case by simp
next
  case (Cons ln rest)
  obtain pl where pl: "parseLine ln = Some pl" using parseLine_total by blast
  show ?case
  proof (cases "pl_text pl = [] \<and> \<not> pl_isList pl")
    case True
    from Cons.IH[of "i + 1"] obtain more where
      "requestLoop (i + 1) rest = Some more" "running (i + 1) (insertTexts more)"
      "length (insertTexts more) = length rest" by blast
    with pl True show ?thesis by simp
  next
    case False
    let ?t = "pl_text pl @ [10]"
    obtain fr where fr: "createFormattingRequests (pl_text pl) i = Some fr" "insertTexts fr = []"
      using createFormattingRequests_total by blast
    from Cons.IH[of "i + int (length ?t)"] obtain more where
      more: "requestLoop (i + int (length ?t)) rest = Some more"
      "running (i + int (length ?t)) (insertTexts more)"
      "length (insertTexts more) = length rest" by blast
    have st: "insertTexts (case pl_style pl of
                    Some style \<Rightarrow> [UpdateParagraphStyle i (i + int (length ?t)) style]
                  | None \<Rightarrow> []) = []"
      by (simp split: option.splits)
    from pl False fr more st show ?thesis
      by (auto simp: Let_def insertTexts_append)
  qed
qed

lemma running_nth:
  "running i ins \<Longrightarrow> k < length ins \<Longrightarrow>
     fst (ins ! k) = i + int (sum_list (map (\<lambda>(j, t). length t) (take k ins)))"
proof (induction ins arbitrary: i k)
  case Nil
  then show ?case by simp
next
  case (Cons p ins)
  obtain j t where p: "p = (j, t)" by (cases p)
  show ?case
  proof (cases k)
    case 0
    with Cons.prems p show ?thesis by simp
  next
    case (Suc k')
    with Cons.prems p have "running (i + int (length t)) ins" "k' < length ins" by simp_all
    from Cons.IH[OF this] show ?thesis using Suc p by simp
  qed
qed

text \<open>
  C5. \<open>markdownToDocsRequests\<close> returns a request sequence for every input, with one
  \<open>insertText\<close> request for each line; the index of each \<open>insertText\<close> request is 1 plus
  the total length of the texts of the \<open>insertText\<close> requests before it, over the whole
  input, whatever lines lie between.
\<close>

theorem insert_index_is_running_cursor:
  "\<exists>reqs. markdownToDocsRequests markdown = Some reqs
     \<and> length (insertTexts reqs) = length (splitOn 10 markdown)
     \<and> (\<forall>k < length (insertTexts reqs).
           fst (insertTexts reqs ! k)
             = 1 + int (sum_list (map (\<lambda>(j, t). length t) (take k (insertTexts reqs)))))"
proof -
  from requestLoop_running[of 1 "splitOn 10 markdown"] obtain reqs where
    r: "requestLoop 1 (splitOn 10 markdown) = Some reqs" "running 1 (insertTexts reqs)"
       "length (insertTexts reqs) = length (splitOn 10 markdown)" by blast
  from running_nth[OF r(2)] r(1,3) show ?thesis
    by (auto simp: markdownToDocsRequests_def)
qed

lemmas docsreq_ev = markdownToDocsRequests_def parseLine_def docHeadingRe_def ulRe_def olRe_def
  headingStyles_def bulletPrefix_def createFormattingRequests_def styleRequest_def group1or2_def
  boldRe_def italicRe_def

theorem insert_index_is_running_cursor_witness:
  "markdownToDocsRequests (js ''# T'' @ [10, 10] @ js ''- **b**'' @ [10] @ js ''1. one'')
     = Some [InsertText 1 (js ''T'' @ [10]), UpdateParagraphStyle 1 3 (js ''HEADING_1''),
             InsertText 3 [10],
             InsertText 4 (bulletPrefix @ js ''**b**'' @ [10]), UpdateTextStyle 8 13 (js ''bold''),
             InsertText 14 (js ''one'' @ [10])]"
  using insert_index_is_running_cursor [of "js ''# T'' @ [10, 10] @ js ''- **b**'' @ [10] @ js ''1. one''"]
  by (simp add: docsreq_ev str_ev)

section \<open>Round trip of a table\<close>

lemmas sheets_ev = markdownTableToArray_def arrayToMarkdownTable_def arrayEmitted_def
  arrayMaxCols_def arrayCells_def separatorCells_def tableLine_def escapePipes_def
  separatorRe_def parseCellsUnescaped_def

text \<open>
  C2 as stated fails. In each of the three grids below no cell has a pipe or a newline:
  a row whose only cell is a dash reads back as a separator and is lost; a short row
  comes back padded; a leading blank of a cell is trimmed away.
\<close>

theorem table_round_trip_fails:
  "124 \<notin> set (concat (concat [[js ''a''], [js ''-'']]))
   \<and> 10 \<notin> set (concat (concat [[js ''a''], [js ''-'']]))
   \<and> markdownTableToArray (arrayToMarkdownTable [[js ''a''], [js ''-'']]) = [[js ''a'']]
   \<and> markdownTableToArray (arrayToMarkdownTable [[js ''a''], [js ''-'']]) \<noteq> [[js ''a''], [js ''-'']]
   \<and> markdownTableToArray (arrayToMarkdownTable [[js ''a'', js ''b''], [js ''c'']])
       = [[js ''a'', js ''b''], [js ''c'', []]]
   \<and> markdownTableToArray (arrayToMarkdownTable [[js '' a'']]) = [[js ''a'']]"
  by (simp add: sheets_ev str_ev upt_rec)

lemma splitOn_no_sep: "sep \<notin> set s \<Longrightarrow> splitOn sep s = [s]"
  by (induction s) auto

lemma splitOn_append_sep: "sep \<notin> set p \<Longrightarrow> splitOn sep (p @ sep # q) = p # splitOn sep q"
  by (induction p) auto

lemma splitOn_join:
  "ps \<noteq> [] \<Longrightarrow> (\<forall>p \<in> set ps. sep \<notin> set p) \<Longrightarrow> splitOn sep (join [sep] ps) = ps"
proof (induction ps)
  case Nil
  then show ?case by simp
next
  case (Cons p ps)
  show ?case
  proof (cases ps)
    case Nil
    with Cons.prems show ?thesis by (simp add: splitOn_no_sep)
  next
    case (Cons q qs)
    with Cons.IH Cons.prems have ih: "splitOn sep (join [sep] (q # qs)) = q # qs" by simp
    have "join [sep] (p # q # qs) = p @ sep # join [sep] (q # qs)" by simp
    moreover have "sep \<notin> set p" using Cons.prems by simp
    ultimately have "splitOn sep (join [sep] (p # q # qs)) = p # splitOn sep (join [sep] (q # qs))"
      using splitOn_append_sep[of sep p "join [sep] (q # qs)"] by simp
    with ih Cons show ?thesis by simp
  qed
qed

lemma set_join_subset: "set (join sep ps) \<subseteq> set sep \<union> \<Union> (set ` set ps)"
  by (induction sep ps rule: join.induct) auto

lemma set_join_member: "p \<in> set ps \<Longrightarrow> set p \<subseteq> set (join sep ps)"
  by (induction sep ps rule: join.induct) auto

lemma trim_id: "s \<noteq> [] \<Longrightarrow> \<not> isSpace (hd s) \<Longrightarrow> \<not> isSpace (last s) \<Longrightarrow> trim s = s"
proof -
  assume a: "s \<noteq> []" "\<not> isSpace (hd s)" "\<not> isSpace (last s)"
  then have "dropWhile isSpace s = s" by (cases s) auto
  moreover have "dropWhile isSpace (rev s) = rev s"
    using a by (cases "rev s") (auto simp: last_rev[symmetric] hd_rev)
  ultimately show ?thesis by (simp add: trim_def trimStart_def trimEnd_def)
qed

lemma trim_fixed_ends:
  assumes "trim c = c" "c \<noteq> []"
  shows "\<not> isSpace (hd c) \<and> \<not> isSpace (last c)"
proof -
  have l1: "length (rev (dropWhile isSpace (rev (dropWhile isSpace c)))) \<le> length (dropWhile isSpace c)"
    by (metis length_dropWhile_le length_rev)
  have l2: "length (dropWhile isSpace c) \<le> length c" by (rule length_dropWhile_le)
  from assms(1) have e: "rev (dropWhile isSpace (rev (dropWhile isSpace c))) = c"
    by (simp add: trim_def trimStart_def trimEnd_def)
  from e l1 l2 have "length (dropWhile isSpace c) = length c" by simp
  then have d1: "dropWhile isSpace c = c"
    by (metis takeWhile_dropWhile_id append_eq_conv_conj length_0_conv
        append_self_conv2 length_append add_cancel_left_left)
  with e have "dropWhile isSpace (rev c) = rev c" by (metis rev_rev_ident)
  with d1 assms(2) show ?thesis
    by (metis dropWhile_eq_Cons_conv hd_rev list.exhaust_sel rev_is_Nil_conv)
qed

lemma trim_padded: "trim c = c \<Longrightarrow> trim (32 # c @ [32]) = c"
proof (cases "c = []")
  case True
  then show ?thesis by (simp add: trim_def trimStart_def trimEnd_def isSpace_def)
next
  case False
  assume "trim c = c"
  from trim_fixed_ends[OF this False] have e: "\<not> isSpace (hd c)" "\<not> isSpace (last c)" by simp_all
  have s: "isSpace 32" by (simp add: isSpace_def)
  have "dropWhile isSpace (32 # c @ [32]) = c @ [32]"
    using False e(1) s by (cases c) auto
  moreover have "dropWhile isSpace (rev (c @ [32])) = rev c"
    using False e(2) s by (cases "rev c") (auto simp: last_rev[symmetric] hd_rev)
  ultimately show ?thesis by (simp add: trim_def trimStart_def trimEnd_def)
qed

lemma re_search_chr_none: "(\<forall>x \<in> set a. \<not> p x) \<Longrightarrow> re_search (Chr p) b a = None"
  by (induction a arbitrary: b) (simp_all add: re_at_def)

lemma escapePipes_id: "124 \<notin> set c \<Longrightarrow> escapePipes c = c"
proof -
  assume "124 \<notin> set c"
  then have "re_search (Chr (is_cu 124)) [] c = None"
    by (intro re_search_chr_none) (auto simp: is_cu_def)
  then show ?thesis
    by (simp add: escapePipes_def re_replace_all_def replace_loop.simps)
qed

lemma re_search_escaped_pipe_none:
  "124 \<notin> set a \<Longrightarrow> re_search (Seq (Chr (is_cu 92)) (Chr (is_cu 124))) b a = None"
proof (induction a arbitrary: b)
  case Nil
  show ?case by (simp add: re_at_def)
next
  case (Cons x xs)
  then have "re_at (Seq (Chr (is_cu 92)) (Chr (is_cu 124))) b (x # xs) = None"
    by (cases xs) (auto simp: re_at_def is_cu_def)
  with Cons show ?case by simp
qed

lemma unescape_id: "124 \<notin> set c \<Longrightarrow> re_replace_all (lit [92, 124]) [124] c = c"
  by (simp add: re_replace_all_def replace_loop.simps re_search_escaped_pipe_none)

lemma tableLine_shape: "tableLine cells = 124 # (32 # join [32, 124, 32] cells @ [32]) @ [124]"
  by (simp add: tableLine_def js_def)

lemma trim_tableLine: "trim (tableLine cells) = tableLine cells"
proof -
  have "\<not> isSpace 124" by (simp add: isSpace_def)
  then show ?thesis unfolding tableLine_shape by (intro trim_id) simp_all
qed

lemma slice_tableLine: "slice_1_m1 (tableLine cells) = 32 # join [32, 124, 32] cells @ [32]"
  unfolding tableLine_shape by (simp add: slice_1_m1_def)

lemma isTableRow_tableLine:
  "startsWith (tableLine cells) [124] \<and> endsWith (tableLine cells) [124]"
  unfolding tableLine_shape by (simp add: startsWith_def endsWith_def)

lemma split_padded_cells:
  "r \<noteq> [] \<Longrightarrow> (\<forall>c \<in> set r. 124 \<notin> set c) \<Longrightarrow>
     splitOn 124 (32 # join [32, 124, 32] r @ [32]) = map (\<lambda>c. 32 # c @ [32]) r"
proof (induction r)
  case Nil
  then show ?case by simp
next
  case (Cons p ps)
  show ?case
  proof (cases ps)
    case Nil
    with Cons.prems show ?thesis by (simp add: splitOn_no_sep)
  next
    case (Cons q qs)
    with Cons.IH Cons.prems have
      ih: "splitOn 124 (32 # join [32, 124, 32] (q # qs) @ [32]) = map (\<lambda>c. 32 # c @ [32]) (q # qs)"
      by simp
    have e: "32 # join [32, 124, 32] (p # q # qs) @ [32]
          = (32 # p @ [32]) @ 124 # (32 # join [32, 124, 32] (q # qs) @ [32])" by simp
    have n: "124 \<notin> set (32 # p @ [32])" using Cons.prems by simp
    have "splitOn 124 (32 # join [32, 124, 32] (p # q # qs) @ [32])
          = (32 # p @ [32]) # splitOn 124 (32 # join [32, 124, 32] (q # qs) @ [32])"
      unfolding e by (rule splitOn_append_sep[OF n])
    with ih Cons show ?thesis by simp
  qed
qed


text \<open>The conditions under which a grid survives the round trip: a cell has no pipe, no
  newline and no white space at its ends; a row has a cell with a character that is not
  a pipe, dash, colon or white space.\<close>

definition plainCell :: "jstring \<Rightarrow> bool" where
  "plainCell c \<longleftrightarrow> 124 \<notin> set c \<and> 10 \<notin> set c \<and> trim c = c"

definition visibleRow :: "jstring list \<Rightarrow> bool" where
  "visibleRow r \<longleftrightarrow> (\<exists>c \<in> set r. \<exists>x \<in> set c. \<not> isSepChar x)"

lemma tableLine_not_separator:
  assumes "visibleRow r"
  shows "\<not> re_test separatorRe (tableLine r)"
proof
  assume "re_test separatorRe (tableLine r)"
  then obtain w where w: "tableLine r = 124 # w @ [124]" "\<forall>x \<in> set w. isSepChar x"
    using separator_iff by blast
  from w(1) have "w = 32 # join [32, 124, 32] r @ [32]" unfolding tableLine_shape by simp
  moreover from assms obtain c x where "c \<in> set r" "x \<in> set c" "\<not> isSepChar x"
    unfolding visibleRow_def by blast
  ultimately have "x \<in> set w" using set_join_member[of c r "[32, 124, 32]"] by auto
  with w(2) \<open>\<not> isSepChar x\<close> show False by blast
qed

lemma parseCells_tableLine:
  assumes "r \<noteq> []" "\<forall>c \<in> set r. plainCell c"
  shows "parseCellsUnescaped (tableLine r) = r"
proof -
  have "splitOn 124 (slice_1_m1 (tableLine r)) = map (\<lambda>c. 32 # c @ [32]) r"
    unfolding slice_tableLine using assms by (intro split_padded_cells) (auto simp: plainCell_def)
  then have "parseCellsUnescaped (tableLine r)
               = map (\<lambda>c. re_replace_all (lit [92, 124]) [124] (trim (32 # c @ [32]))) r"
    by (simp add: parseCellsUnescaped_def comp_def)
  also have "\<dots> = map (\<lambda>c. c) r"
  proof (rule map_cong[OF refl])
    fix c assume "c \<in> set r"
    with assms(2) have p: "124 \<notin> set c" "trim c = c" by (auto simp: plainCell_def)
    from unescape_id[OF p(1)] show "re_replace_all (lit [92, 124]) [124] (trim (32 # c @ [32])) = c"
      by (simp add: trim_padded[OF p(2)])
  qed
  finally show ?thesis by simp
qed

lemma mdRows_row:
  assumes "visibleRow r" "\<forall>c \<in> set r. plainCell c"
  shows "mdRows (tableLine r # ls) = r # mdRows ls"
proof -
  from assms(1) have ne: "r \<noteq> []" by (auto simp: visibleRow_def)
  show ?thesis
    using isTableRow_tableLine[of r] tableLine_not_separator[OF assms(1)]
      parseCells_tableLine[OF ne assms(2)]
    by (simp add: trim_tableLine Let_def)
qed

lemma mdRows_rows:
  "(\<forall>r \<in> set rs. visibleRow r \<and> (\<forall>c \<in> set r. plainCell c)) \<Longrightarrow> mdRows (map tableLine rs) = rs"
proof (induction rs)
  case Nil
  show ?case by simp
next
  case (Cons r rs)
  then have "mdRows (tableLine r # map tableLine rs) = r # mdRows (map tableLine rs)"
    by (intro mdRows_row) simp_all
  with Cons show ?case by (simp del: mdRows.simps)
qed

lemma separator_line_matches:
  assumes "0 < n"
  shows "re_test separatorRe (tableLine (separatorCells n))"
proof -
  let ?w = "32 # join [32, 124, 32] (separatorCells n) @ [32]"
  have "\<Union> (set ` set (separatorCells n)) \<subseteq> {45}"
    by (auto simp: separatorCells_def js_def)
  with set_join_subset[of "[32, 124, 32]" "separatorCells n"]
  have "set (join [32, 124, 32] (separatorCells n)) \<subseteq> {32, 124, 45}"
    by fastforce
  then have "\<forall>x \<in> set ?w. isSepChar x" by (auto simp: isSepChar_def isSpace_def)
  moreover have "tableLine (separatorCells n) = 124 # ?w @ [124]" by (simp add: tableLine_shape)
  ultimately show ?thesis unfolding separator_iff by blast
qed

lemma mdRows_sep: "0 < n \<Longrightarrow> mdRows (tableLine (separatorCells n) # ls) = mdRows ls"
  using isTableRow_tableLine[of "separatorCells n"] separator_line_matches[of n]
  by (simp add: trim_tableLine Let_def)

lemma tableLine_no_newline:
  assumes "\<forall>c \<in> set r. 10 \<notin> set c"
  shows "10 \<notin> set (tableLine r)"
proof -
  have "set (join [32, 124, 32] r) \<subseteq> {32, 124} \<union> \<Union> (set ` set r)"
    using set_join_subset[of "[32, 124, 32]" r] by auto
  with assms have "10 \<notin> set (join [32, 124, 32] r)" by auto
  then show ?thesis unfolding tableLine_shape by simp
qed

lemma arrayCells_full:
  assumes "length r = n" "\<forall>c \<in> set r. 124 \<notin> set c"
  shows "arrayCells n r = r"
proof -
  have "arrayCells n r = map (\<lambda>j. r ! j) [0..<length r]"
    unfolding arrayCells_def assms(1)[symmetric]
    using assms(2) by (intro map_cong[OF refl]) (simp add: escapePipes_id)
  then show ?thesis by (simp add: map_nth)
qed

text \<open>
  C2, amended. When all rows of the grid have the same length, no cell has a pipe, a
  newline, or white space at its start or end, and every row has a cell with a character
  other than pipe, dash, colon and white space, then
  \<open>markdownTableToArray (arrayToMarkdownTable grid)\<close> is the grid.
\<close>

theorem table_round_trip:
  assumes "\<forall>r \<in> set grid. length r = n"
    and "\<forall>r \<in> set grid. \<forall>c \<in> set r. plainCell c"
    and "\<forall>r \<in> set grid. visibleRow r"
  shows "markdownTableToArray (arrayToMarkdownTable grid) = grid"
proof (cases grid)
  case Nil
  then show ?thesis
    by (simp add: arrayToMarkdownTable_def markdownTableToArray_def trim_def trimStart_def trimEnd_def)
next
  case (Cons r0 rs)
  from assms(3) Cons have "r0 \<noteq> []" by (auto simp: visibleRow_def)
  with assms(1) Cons have n: "0 < n" by auto
  have "arrayMaxCols grid = Max (length ` set grid)" using Cons by (intro arrayMaxCols_Max) simp
  also have "length ` set grid = {n}" using assms(1) Cons by auto
  finally have mc: "arrayMaxCols grid = n" by simp
  have cells: "arrayCells n r = r" if "r \<in> set grid" for r
    using that assms(1,2) by (intro arrayCells_full) (auto simp: plainCell_def)
  have "arrayEmitted grid = emitRows (arrayCells n) (separatorCells n) 0 grid"
    by (simp add: arrayEmitted_def mc Let_def)
  also have "\<dots> = arrayCells n r0 # separatorCells n # map (arrayCells n) rs"
    unfolding Cons by (simp add: emitRows_Suc)
  also have "\<dots> = r0 # separatorCells n # rs"
    using cells Cons by (simp add: map_idI)
  finally have em: "arrayEmitted grid = r0 # separatorCells n # rs" .
  let ?lines = "map tableLine (r0 # separatorCells n # rs)"
  have nl: "\<forall>l \<in> set ?lines. 10 \<notin> set l"
  proof
    fix l assume "l \<in> set ?lines"
    then obtain r where r: "l = tableLine r" "r = separatorCells n \<or> r \<in> set grid"
      using Cons by auto
    have "\<forall>c \<in> set r. 10 \<notin> set c"
      using r(2) assms(2) by (auto simp: separatorCells_def js_def plainCell_def)
    then show "10 \<notin> set l" unfolding r(1) by (rule tableLine_no_newline)
  qed
  have "arrayToMarkdownTable grid = join [10] ?lines"
    using Cons em by (simp add: arrayToMarkdownTable_def del: join.simps)
  then have sp: "splitOn 10 (arrayToMarkdownTable grid) = ?lines"
    using splitOn_join[of ?lines 10] nl by (simp del: join.simps)
  have tne: "trim (tableLine r) \<noteq> []" for r
    unfolding trim_tableLine by (simp add: tableLine_shape)
  have ft: "filter (\<lambda>l. trim l \<noteq> []) ?lines = ?lines"
    by (rule filter_True) (use tne in auto)
  have "markdownTableToArray (arrayToMarkdownTable grid) = mdRows ?lines"
    unfolding markdownTableToArray_def sp ft ..
  also have "\<dots> = r0 # mdRows (map tableLine rs)"
    using assms(2,3) Cons n by (simp add: mdRows_row mdRows_sep del: mdRows.simps)
  also have "mdRows (map tableLine rs) = rs"
    using assms(2,3) Cons by (intro mdRows_rows) auto
  finally show ?thesis using Cons by simp
qed

theorem table_round_trip_witness:
  "markdownTableToArray (js ''| a | b c |'' @ [10] @ js ''| --- | --- |'' @ [10] @ js ''| - | 1 |'')
     = [[js ''a'', js ''b c''], [js ''-'', js ''1'']]
   \<and> arrayToMarkdownTable [[js ''a'', js ''b c''], [js ''-'', js ''1'']]
     = js ''| a | b c |'' @ [10] @ js ''| --- | --- |'' @ [10] @ js ''| - | 1 |''"
proof -
  have h1: "\<forall>r \<in> set [[js ''a'', js ''b c''], [js ''-'', js ''1'']]. length r = 2" by simp
  have h2: "\<forall>r \<in> set [[js ''a'', js ''b c''], [js ''-'', js ''1'']]. \<forall>c \<in> set r. plainCell c"
    by (simp add: plainCell_def str_ev)
  have h3: "\<forall>r \<in> set [[js ''a'', js ''b c''], [js ''-'', js ''1'']]. visibleRow r"
    by (simp add: visibleRow_def isSepChar_def str_ev)
  have e: "arrayToMarkdownTable [[js ''a'', js ''b c''], [js ''-'', js ''1'']]
     = js ''| a | b c |'' @ [10] @ js ''| --- | --- |'' @ [10] @ js ''| - | 1 |''"
    by (simp add: sheets_ev str_ev upt_rec)
  from table_round_trip[OF h1 h2 h3] show ?thesis unfolding e by simp
qed

section \<open>Rectangular tables\<close>





















section \<open>SlidesConverter\<close>

text \<open>The presentation of the Slides API, as far as the converter reads it. An optional
  property is an option; \<open>textElements\<close> and \<open>pageElements\<close> are tested by the code before
  use and are options too.\<close>

record TextStyle =
  ts_bold :: "bool option"
  ts_italic :: "bool option"

record TextRun =
  tr_content :: jstring
  tr_style :: "TextStyle option"

record TextElement =
  textRun :: "TextRun option"

record TextContent =
  textElements :: "TextElement list option"

record TableCell =
  tc_text :: "TextContent option"

record TableRow =
  tableCells :: "TableCell list"

record SlideTable =
  tableRows :: "TableRow list"

record Image =
  contentUrl :: jstring
  sourceUrl :: "jstring option"

record Shape =
  sh_text :: "TextContent option"

record PageElement =
  pe_shape :: "Shape option"
  pe_image :: "Image option"
  pe_table :: "SlideTable option"

record Slide =
  pageElements :: "PageElement list option"

record GooglePresentation =
  p_title :: jstring
  p_slides :: "Slide list"

text \<open>The text pushed for one element of \<open>extractTextFromContent\<close>; nothing is pushed for
  an element without a run or with an empty \<open>content\<close>.\<close>

definition runText :: "TextElement \<Rightarrow> jstring" where
  "runText element =
     (case textRun element of
        None \<Rightarrow> []
      | Some run \<Rightarrow>
          if tr_content run = [] then []
          else (case tr_style run of
                  None \<Rightarrow> tr_content run
                | Some style \<Rightarrow>
                    (let t0 = tr_content run;
                         t1 = (if ts_bold style = Some True \<and> trim t0 \<noteq> []
                               then js ''**'' @ trim t0 @ js ''** '' else t0);
                         t2 = (if ts_italic style = Some True \<and> trim t1 \<noteq> []
                               then js ''*'' @ trim t1 @ js ''* '' else t1)
                     in t2)))"

definition extractTextFromContent :: "TextContent \<Rightarrow> jstring" where
  "extractTextFromContent textContent =
     (case textElements textContent of None \<Rightarrow> [] | Some elems \<Rightarrow> concat (map runText elems))"

text \<open>\<open>cellText.replace(/\|/g, '\\|').replace(/\n/g, ' ')\<close>\<close>

definition slideCellText :: "TableCell \<Rightarrow> jstring" where
  "slideCellText cell =
     (let cellText = (case tc_text cell of None \<Rightarrow> [] | Some t \<Rightarrow> trim (extractTextFromContent t))
      in re_replace_all (Chr (is_cu 10)) (js '' '') (escapePipes cellText))"

fun slideTableRows :: "nat \<Rightarrow> TableRow list \<Rightarrow> jstring list" where
  "slideTableRows i [] = []"
| "slideTableRows i (row # rows) =
     (let cells = map slideCellText (tableCells row)
      in tableLine cells # (if i = 0 then [tableLine (replicate (length cells) (js ''---''))] else [])
           @ slideTableRows (Suc i) rows)"

definition extractTableContent :: "SlideTable \<Rightarrow> jstring" where
  "extractTableContent tbl = join [10] (slideTableRows 0 (tableRows tbl))"

text \<open>The variables of the loop of \<open>extractSlideContent\<close>; \<open>notes\<close> is never assigned.\<close>

record SlideContent =
  sc_title :: jstring
  sc_body :: "jstring list"
  sc_notes :: jstring

definition elementStep :: "SlideContent \<times> bool \<Rightarrow> PageElement \<Rightarrow> SlideContent \<times> bool" where
  "elementStep st element =
     (let (c, isFirstText) = st;
          (c1, first1) =
            (case (case pe_shape element of None \<Rightarrow> None | Some s \<Rightarrow> sh_text s) of
               Some t \<Rightarrow>
                 (let txt = extractTextFromContent t
                  in if isFirstText \<and> trim txt \<noteq> [] then (c\<lparr>sc_title := trim txt\<rparr>, False)
                     else if trim txt \<noteq> []
                     then (c\<lparr>sc_body := sc_body c @ filter (\<lambda>l. trim l \<noteq> []) (splitOn 10 txt)\<rparr>,
                           isFirstText)
                     else (c, isFirstText))
             | None \<Rightarrow> (c, isFirstText));
          c2 = (case pe_table element of
                  Some tbl \<Rightarrow>
                    (let tableMarkdown = extractTableContent tbl
                     in if tableMarkdown \<noteq> [] then c1\<lparr>sc_body := sc_body c1 @ [tableMarkdown]\<rparr> else c1)
                | None \<Rightarrow> c1);
          c3 = (case pe_image element of
                  Some img \<Rightarrow>
                    (let imageUrl = (if contentUrl img \<noteq> [] then contentUrl img
                                     else (case sourceUrl img of Some u \<Rightarrow> u | None \<Rightarrow> []))
                     in if imageUrl \<noteq> []
                        then c2\<lparr>sc_body := sc_body c2 @ [js ''![Image]('' @ imageUrl @ js '')'']\<rparr>
                        else c2)
                | None \<Rightarrow> c2)
      in (c3, first1))"

definition extractSlideContent :: "Slide \<Rightarrow> SlideContent" where
  "extractSlideContent slide =
     (case pageElements slide of
        None \<Rightarrow> \<lparr>sc_title = [], sc_body = [], sc_notes = []\<rparr>
      | Some elems \<Rightarrow>
          fst (foldl elementStep (\<lparr>sc_title = [], sc_body = [], sc_notes = []\<rparr>, True) elems))"

text \<open>The lines pushed for the body of a slide.\<close>

fun bodyLines :: "jstring list \<Rightarrow> jstring list" where
  "bodyLines [] = []"
| "bodyLines (item # items) =
     (if startsWith item (js ''|'') then [item]
      else if trim item \<noteq> [] then [js ''- '' @ item] else []) @ bodyLines items"

definition slideHeader :: "nat \<Rightarrow> jstring \<Rightarrow> jstring" where
  "slideHeader slideNum slideTitle =
     js ''## Slide '' @ digitsOf slideNum @ (if slideTitle \<noteq> [] then js '': '' @ slideTitle else [])"

text \<open>The lines pushed in iteration \<open>i\<close> of the loop over the \<open>n\<close> slides.\<close>

definition slideLines :: "nat \<Rightarrow> nat \<Rightarrow> SlideContent \<Rightarrow> jstring list" where
  "slideLines n i c =
     [slideHeader (i + 1) (sc_title c), []]
     @ (if length (sc_body c) > 0 then bodyLines (sc_body c) @ [[]] else [])
     @ (if sc_notes c \<noteq> [] then [js ''> **Notes:** '' @ sc_notes c, []] else [])
     @ (if int i < int n - 1 then [js ''---'', []] else [])"

fun allSlideLines :: "nat \<Rightarrow> nat \<Rightarrow> SlideContent list \<Rightarrow> jstring list" where
  "allSlideLines n i [] = []"
| "allSlideLines n i (c # cs) = slideLines n i c @ allSlideLines n (Suc i) cs"

definition renderSlides :: "jstring \<Rightarrow> SlideContent list \<Rightarrow> jstring" where
  "renderSlides title cs =
     join [10]
       ([js ''# '' @ title, [], js ''*'' @ digitsOf (length cs) @ js '' slides*'', [], js ''---'', []]
        @ allSlideLines (length cs) 0 cs)"

definition toMarkdown :: "GooglePresentation \<Rightarrow> jstring" where
  "toMarkdown presentation =
     renderSlides (p_title presentation) (map extractSlideContent (p_slides presentation))"

text \<open>\<open>/---\n*/\<close>, \<open>/^##\s+Slide\s+\d+:?\s*(.*)$/i\<close>, \<open>/^#{1,6}\s+(.+)$/\<close>; the list pattern is
  \<open>ulRe\<close>.\<close>

definition ruleRe :: re where
  "ruleRe = seq [lit (js ''---''), star (Chr (is_cu 10))]"

definition slideHeadingRe :: re where
  "slideHeadingRe =
     seq [Bol False, liti (js ''##''), plus (Chr isSpace), liti (js ''Slide''), plus (Chr isSpace),
          plus (Chr isDigit), opt (Chr (is_ci 58)), star (Chr isSpace), Grp 1 (star (Chr dot)),
          Eol False]"

definition anyHeadingRe :: re where
  "anyHeadingRe =
     seq [Bol False, Rep True 1 (Some 6) (Chr (is_cu 35)), plus (Chr isSpace), Grp 1 (plus (Chr dot)),
          Eol False]"

record ParsedSlide =
  ps_title :: jstring
  ps_body :: "jstring list"

text \<open>The loop over the lines of one section. The match of the second pattern is used
  only when \<open>title\<close> is still empty, and \<open>match\<close> has no effect: it is run only then.\<close>

fun sectionLines :: "ParsedSlide \<Rightarrow> jstring list \<Rightarrow> ParsedSlide option" where
  "sectionLines s [] = Some s"
| "sectionLines s (ln # rest) =
     (case re_exec slideHeadingRe ln of
        Some slideHeadingMatch \<Rightarrow>
          do { g \<leftarrow> grp slideHeadingMatch 1; sectionLines (s\<lparr>ps_title := trim g\<rparr>) rest }
      | None \<Rightarrow>
         (case (if ps_title s = [] then re_exec anyHeadingRe ln else None) of
            Some headingMatch \<Rightarrow>
              do { g \<leftarrow> grp headingMatch 1; sectionLines (s\<lparr>ps_title := trim g\<rparr>) rest }
          | None \<Rightarrow>
             (case re_exec ulRe ln of
                Some listMatch \<Rightarrow>
                  do { g \<leftarrow> grp listMatch 1; sectionLines (s\<lparr>ps_body := ps_body s @ [trim g]\<rparr>) rest }
              | None \<Rightarrow>
                  if startsWith ln (js ''*'') \<and> endsWith ln (js ''*'') \<and> includes_str ln (js ''slide'')
                  then sectionLines s rest
                  else if trim ln \<noteq> [] \<and> \<not> startsWith ln (js ''>'')
                  then sectionLines (s\<lparr>ps_body := ps_body s @ [trim ln]\<rparr>) rest
                  else sectionLines s rest)))"

definition parseSection :: "jstring \<Rightarrow> ParsedSlide list option" where
  "parseSection sect =
     (let lines = filter (\<lambda>l. trim l \<noteq> []) (splitOn 10 (trim sect))
      in if length lines = 0 then Some []
         else do {
                s \<leftarrow> sectionLines \<lparr>ps_title = [], ps_body = []\<rparr> lines;
                Some (if ps_title s \<noteq> [] \<or> length (ps_body s) > 0 then [s] else [])
              })"

fun parseSections :: "jstring list \<Rightarrow> ParsedSlide list option" where
  "parseSections [] = Some []"
| "parseSections (sect # sects) =
     do { s \<leftarrow> parseSection sect; more \<leftarrow> parseSections sects; Some (s @ more) }"

definition parseMarkdownToSlides :: "jstring \<Rightarrow> ParsedSlide list option" where
  "parseMarkdownToSlides markdown = parseSections (re_split ruleRe markdown)"


section \<open>Round trip of a presentation\<close>

text \<open>
  \<open>unlines\<close> ends every line with a newline; \<open>lines.join('\n')\<close> is \<open>unlines\<close> without
  the last newline. A quiet line does not start with \<open>#\<close>, so that it is no heading; a
  rule-free line has no three dashes in a row, so that \<open>/---\n*/\<close> does not split it.
\<close>

definition unlines :: "jstring list \<Rightarrow> jstring" where
  "unlines ls = concat (map (\<lambda>l. l @ [10]) ls)"

definition quietLine :: "jstring \<Rightarrow> bool" where
  "quietLine l \<longleftrightarrow> l = [] \<or> hd l \<noteq> 35"

definition ruleFree :: "jstring \<Rightarrow> bool" where
  "ruleFree l \<longleftrightarrow> \<not> includes_str l (js ''---'')"

text \<open>A slide content that \<open>toMarkdown\<close> writes as one section: a non-empty title on
  one line, body items on one line each, and three dashes in a row nowhere.\<close>

definition plainSlide :: "SlideContent \<Rightarrow> bool" where
  "plainSlide c \<longleftrightarrow>
     sc_title c \<noteq> [] \<and> (\<forall>x \<in> set (sc_title c). dot x) \<and> ruleFree (sc_title c)
     \<and> (\<forall>item \<in> set (sc_body c). 10 \<notin> set item \<and> ruleFree item)"

text \<open>What \<open>extractSlideContent\<close> guarantees of its result: no notes, and a trimmed
  title.\<close>

definition asExtracted :: "SlideContent \<Rightarrow> bool" where
  "asExtracted c \<longleftrightarrow> sc_notes c = [] \<and> trim (sc_title c) = sc_title c"

text \<open>The lines of a slide up to the empty line that ends it.\<close>

definition slideSection :: "nat \<Rightarrow> SlideContent \<Rightarrow> jstring list" where
  "slideSection i c =
     slideHeader (i + 1) (sc_title c) # (if sc_body c \<noteq> [] then [] # bodyLines (sc_body c) else [])"


lemma unlines_Nil: "unlines [] = []"
  by (simp add: unlines_def)

lemma unlines_Cons: "unlines (l # ls) = l @ 10 # unlines ls"
  by (simp add: unlines_def)

lemma unlines_append: "unlines (xs @ ys) = unlines xs @ unlines ys"
  by (simp add: unlines_def)

lemma join_unlines: "ls \<noteq> [] \<Longrightarrow> join [10] ls = butlast (unlines ls)"
proof (induction ls)
  case Nil
  then show ?case by simp
next
  case (Cons l ls)
  show ?case
  proof (cases ls)
    case Nil
    then show ?thesis by (simp add: unlines_def)
  next
    case (Cons m ms)
    with Cons.IH have "join [10] (m # ms) = butlast (unlines (m # ms))" by simp
    moreover have "unlines (m # ms) \<noteq> []" by (simp add: unlines_def)
    ultimately show ?thesis unfolding Cons by (simp add: unlines_Cons butlast_append)
  qed
qed

lemma splitOn_unlines:
  "\<forall>l \<in> set ls. 10 \<notin> set l \<Longrightarrow> splitOn 10 (unlines ls) = ls @ [[]]"
  by (induction ls) (simp_all add: unlines_Nil unlines_Cons splitOn_append_sep)

lemma trimEnd_append:
  "trimEnd (a @ b) = (if \<forall>x \<in> set b. isSpace x then trimEnd a else a @ trimEnd b)"
  by (simp add: trimEnd_def dropWhile_append)

lemma trimEnd_take: "\<exists>k. trimEnd s = take k s"
proof -
  have "dropWhile isSpace (rev s) = drop (length (takeWhile isSpace (rev s))) (rev s)"
    by (rule dropWhile_eq_drop)
  then have "trimEnd s = take (length s - length (takeWhile isSpace (rev s))) s"
    by (simp add: trimEnd_def rev_drop)
  then show ?thesis by blast
qed

lemma trimStart_id: "s \<noteq> [] \<Longrightarrow> \<not> isSpace (hd s) \<Longrightarrow> trimStart s = s"
  by (cases s) (simp_all add: trimStart_def)

lemma trimEnd_id: "s \<noteq> [] \<Longrightarrow> \<not> isSpace (last s) \<Longrightarrow> trimEnd s = s"
  by (cases "rev s") (auto simp: trimEnd_def last_rev[symmetric] hd_rev)

lemma trim_trim: "trim (trim s) = trim s"
proof (cases "trim s = []")
  case True
  have "trim [] = []" by (simp add: trim_def trimStart_def trimEnd_def)
  with True show ?thesis by simp
next
  case False
  let ?d = "dropWhile isSpace s"
  have t: "trim s = rev (dropWhile isSpace (rev ?d))" by (simp add: trim_def trimStart_def trimEnd_def)
  from False t have dn: "?d \<noteq> []" by (auto dest: set_dropWhileD)
  then have h: "\<not> isSpace (hd ?d)" by (metis hd_dropWhile)
  from False t have rn: "dropWhile isSpace (rev ?d) \<noteq> []" by auto
  then have l: "\<not> isSpace (hd (dropWhile isSpace (rev ?d)))" by (metis hd_dropWhile)
  obtain k where k: "trimEnd ?d = take k ?d" using trimEnd_take by blast
  have ts: "trim s = take k ?d" using k by (simp add: trim_def trimStart_def)
  with False have "0 < k" by (cases k) auto
  then have "hd (trim s) = hd ?d" using ts dn by (cases ?d; cases k) auto
  moreover have "last (trim s) = hd (dropWhile isSpace (rev ?d))"
    using rn unfolding t by (simp add: last_rev)
  ultimately show ?thesis using False h l by (intro trim_id) auto
qed

lemma splitOn_not_Nil: "splitOn c s \<noteq> []"
  by (induction s) (auto split: list.splits)

lemma hd_splitOn: "hd (splitOn c s) = takeWhile (\<lambda>x. x \<noteq> c) s"
  by (induction s) (auto split: list.splits simp: splitOn_not_Nil)

lemma tl_splitOn_Cons:
  "tl (splitOn c (x # xs)) = (if x = c then splitOn c xs else tl (splitOn c xs))"
  by (auto split: list.splits simp: splitOn_not_Nil)

lemma quietLine_take: "quietLine l \<Longrightarrow> quietLine (take k l)"
  by (cases l; cases k) (auto simp: quietLine_def)

lemma takeWhile_take_prefix: "\<exists>m. takeWhile P (take k s) = take m (takeWhile P s)"
proof (induction s arbitrary: k)
  case Nil
  show ?case by simp
next
  case (Cons x xs)
  show ?case
  proof (cases k)
    case 0
    then show ?thesis by (intro exI[of _ 0]) simp
  next
    case (Suc j)
    from Cons[of j] obtain m where m: "takeWhile P (take j xs) = take m (takeWhile P xs)" by blast
    show ?thesis
    proof (cases "P x")
      case True
      with m Suc show ?thesis by (intro exI[of _ "Suc m"]) simp
    next
      case False
      with Suc show ?thesis by simp
    qed
  qed
qed

lemma splitOn_set:
  "set (splitOn c s) = insert (hd (splitOn c s)) (set (tl (splitOn c s)))"
  using splitOn_not_Nil[of c s] by (cases "splitOn c s") auto

lemma quiet_tail_take:
  "\<forall>l \<in> set (tl (splitOn c s)). quietLine l \<Longrightarrow> \<forall>l \<in> set (tl (splitOn c (take k s))). quietLine l"
proof (induction s arbitrary: k)
  case Nil
  then show ?case by simp
next
  case (Cons x xs)
  show ?case
  proof (cases k)
    case 0
    then show ?thesis by simp
  next
    case (Suc j)
    show ?thesis
    proof (cases "x = c")
      case True
      with Cons.prems have a: "\<forall>l \<in> set (splitOn c xs). quietLine l"
        by (simp add: tl_splitOn_Cons del: splitOn.simps)
      then have "quietLine (hd (splitOn c xs))" using splitOn_not_Nil[of c xs] by simp
      then have "quietLine (takeWhile (\<lambda>x. x \<noteq> c) xs)" by (simp only: hd_splitOn)
      moreover obtain m where "takeWhile (\<lambda>x. x \<noteq> c) (take j xs) = take m (takeWhile (\<lambda>x. x \<noteq> c) xs)"
        using takeWhile_take_prefix by blast
      ultimately have h: "quietLine (hd (splitOn c (take j xs)))"
        by (simp only: hd_splitOn quietLine_take)
      from a have "\<forall>l \<in> set (tl (splitOn c xs)). quietLine l"
        by (metis list.set_sel(2) splitOn_not_Nil)
      then have "\<forall>l \<in> set (tl (splitOn c (take j xs))). quietLine l" by (rule Cons.IH)
      with h have "\<forall>l \<in> set (splitOn c (take j xs)). quietLine l"
        by (subst splitOn_set) simp
      then show ?thesis unfolding Suc take_Suc_Cons using True
        by (simp add: tl_splitOn_Cons del: splitOn.simps)
    next
      case False
      with Cons.prems have "\<forall>l \<in> set (tl (splitOn c xs)). quietLine l"
        by (simp add: tl_splitOn_Cons del: splitOn.simps)
      then have "\<forall>l \<in> set (tl (splitOn c (take j xs))). quietLine l" by (rule Cons.IH)
      then show ?thesis unfolding Suc take_Suc_Cons using False
        by (simp add: tl_splitOn_Cons del: splitOn.simps)
    qed
  qed
qed

lemma quiet_take:
  assumes "\<forall>l \<in> set (splitOn c s). quietLine l"
  shows "\<forall>l \<in> set (splitOn c (take k s)). quietLine l"
proof -
  from assms have "quietLine (hd (splitOn c s))" using splitOn_not_Nil[of c s] by simp
  then have "quietLine (takeWhile (\<lambda>x. x \<noteq> c) s)" by (simp only: hd_splitOn)
  moreover obtain m where "takeWhile (\<lambda>x. x \<noteq> c) (take k s) = take m (takeWhile (\<lambda>x. x \<noteq> c) s)"
    using takeWhile_take_prefix by blast
  ultimately have h: "quietLine (hd (splitOn c (take k s)))"
    by (simp only: hd_splitOn quietLine_take)
  from assms have "\<forall>l \<in> set (tl (splitOn c s)). quietLine l"
    by (metis list.set_sel(2) splitOn_not_Nil)
  then have "\<forall>l \<in> set (tl (splitOn c (take k s))). quietLine l" by (rule quiet_tail_take)
  with h show ?thesis by (subst splitOn_set) simp
qed


lemma trim_eq_Nil: "trim s = [] \<longleftrightarrow> (\<forall>x \<in> set s. isSpace x)"
proof
  assume a: "trim s = []"
  show "\<forall>x \<in> set s. isSpace x"
  proof (cases "dropWhile isSpace s = []")
    case True
    then show ?thesis by simp
  next
    case False
    then have "\<not> isSpace (hd (dropWhile isSpace s))" by (metis hd_dropWhile)
    moreover from a have "\<forall>x \<in> set (dropWhile isSpace s). isSpace x"
      by (simp add: trim_def trimStart_def trimEnd_def)
    ultimately show ?thesis using False by (metis list.set_sel(1))
  qed
next
  assume "\<forall>x \<in> set s. isSpace x"
  then show "trim s = []" by (auto simp: trim_def trimStart_def trimEnd_def dest: set_dropWhileD)
qed

lemma digitsOf_digits: "digitsOf n \<noteq> [] \<and> (\<forall>x \<in> set (digitsOf n). isDigit x)"
proof (induction n rule: digitsOf.induct)
  case (1 n)
  show ?case
  proof (cases "n < 10")
    case True
    then show ?thesis by (subst digitsOf.simps, subst (2) digitsOf.simps) (simp add: isDigit_def)
  next
    case False
    with 1 have "\<forall>x \<in> set (digitsOf (n div 10)). isDigit x" by simp
    moreover have "isDigit (48 + n mod 10)" by (simp add: isDigit_def)
    ultimately show ?thesis using False
      by (subst digitsOf.simps, subst (2) digitsOf.simps) simp
  qed
qed

lemma star_span:
  assumes "\<forall>x \<in> set u. p x" "v = [] \<or> \<not> p (hd v)" "k (rev u @ b, v, c) = Some y"
  shows "rmatch (Rep True 0 None (Chr p)) (b, u @ v, c) k = Some y"
  using assms
proof (induction u arbitrary: b)
  case Nil
  then show ?case by (subst rmatch_rep_chr_unfold) (cases v; simp)
next
  case (Cons x u)
  from Cons.prems have "rmatch (Rep True 0 None (Chr p)) (x # b, u @ v, c) k = Some y"
    by (intro Cons.IH) simp_all
  with Cons.prems(1) show ?case by (subst rmatch_rep_chr_unfold) simp
qed

lemma plus_span:
  assumes "u \<noteq> []" "\<forall>x \<in> set u. p x" "v = [] \<or> \<not> p (hd v)" "k (rev u @ b, v, c) = Some y"
  shows "rmatch (Rep True 1 None (Chr p)) (b, u @ v, c) k = Some y"
proof -
  from assms(1) obtain x u' where u: "u = x # u'" by (cases u) auto
  have "rmatch (Rep True 0 None (Chr p)) (x # b, u' @ v, c) k = Some y"
    using assms(2-4) unfolding u by (intro star_span) simp_all
  then show ?thesis using assms(2) unfolding u One_nat_def
    by (subst rmatch_rep_chr_Suc) simp
qed

lemma star_stop:
  "a = [] \<or> \<not> p (hd a) \<Longrightarrow> rmatch (Rep True 0 None (Chr p)) (b, a, c) k = k (b, a, c)"
  by (subst rmatch_rep_chr_unfold) (cases a; simp)

lemma opt_take:
  "p x \<Longrightarrow> k (x # b, xs, c) = Some y \<Longrightarrow>
   rmatch (Rep True 0 (Some 1) (Chr p)) (b, x # xs, c) k = Some y"
  by (simp add: rmatch.simps(7))

lemma rep_hash:
  "x \<noteq> 35 \<Longrightarrow>
   rmatch (Rep True 1 (Some 6) (Chr (is_cu 35))) (b, 35 # x # xs, c) k = k (35 # b, x # xs, c)"
  by (simp add: rmatch.simps(7) is_cu_def)

lemma slideHeading_header:
  assumes t: "t \<noteq> []" "\<not> isSpace (hd t)" "\<forall>x \<in> set t. dot x"
  shows "\<exists>m. re_exec slideHeadingRe (slideHeader n t) = Some m \<and> grp m 1 = Some t"
proof -
  define ds where "ds = digitsOf n"
  define h where "h = slideHeader n t"
  define fin :: "mstate \<Rightarrow> rmatched option" where
    "fin = (\<lambda>(b', a', c'). Some \<lparr>m_pre = rev [], m_text = take (length h - length a') h,
                                  m_post = a', m_caps = c'\<rparr>)"
  define Y where "Y = (\<lambda>caps. \<lparr>m_pre = [], m_text = h, m_post = [], m_caps = caps\<rparr>)"
  define R4 where "R4 = Seq (Grp 1 (star (Chr dot))) (Eol False)"
  define R3 where "R3 = Seq (star (Chr isSpace)) R4"
  define R2 where "R2 = Seq (opt (Chr (is_ci 58))) R3"
  define R1 where "R1 = Seq (plus (Chr isDigit)) R2"
  have ds: "ds \<noteq> []" "\<forall>x \<in> set ds. isDigit x" using digitsOf_digits[of n] by (simp_all add: ds_def)
  then have "isDigit (hd ds)" by (cases ds) auto
  then have dsp: "\<not> isSpace (hd ds)" by (auto simp: isDigit_def isSpace_def)
  have f4: "rmatch R4 (b, t, c) fin = Some (Y (c(1 \<mapsto> t)))" for b c
    unfolding R4_def
    apply (simp only: rmatch.simps(5) rmatch.simps(8))
    apply (rule star_span[where u = t and v = "[]", simplified])
    using t(3) apply simp
    apply (simp add: fin_def Y_def)
    done
  have f3: "rmatch R3 (b, 32 # t, c) fin = Some (Y (c(1 \<mapsto> t)))" for b c
    unfolding R3_def
    apply (simp only: rmatch.simps(5))
    apply (rule star_span[where u = "[32]" and v = t, simplified])
    apply (simp add: isSpace_def)
    using t(2) apply simp
    apply (simp add: f4)
    done
  have f2: "rmatch R2 (b, 58 # 32 # t, c) fin = Some (Y (c(1 \<mapsto> t)))" for b c
    unfolding R2_def
    apply (simp only: rmatch.simps(5))
    apply (rule opt_take)
    apply (simp add: is_ci_def)
    apply (simp add: f3)
    done
  have f1: "rmatch R1 (b, ds @ 58 # 32 # t, c) fin = Some (Y (c(1 \<mapsto> t)))" for b c
    unfolding R1_def
    apply (simp only: rmatch.simps(5))
    apply (rule plus_span)
    apply (rule ds(1))
    apply (rule ds(2))
    apply (simp add: isDigit_def)
    apply (simp add: f2)
    done
  have r: "slideHeadingRe =
       Seq (Bol False) (Seq (liti (js ''##'')) (Seq (plus (Chr isSpace)) (Seq (liti (js ''Slide''))
         (Seq (plus (Chr isSpace)) R1))))"
    by (simp add: slideHeadingRe_def R1_def R2_def R3_def R4_def)
  have hh: "h = js ''## Slide '' @ ds @ 58 # 32 # t"
    by (simp add: h_def slideHeader_def ds_def t js_def)
  have "re_at slideHeadingRe [] h = rmatch slideHeadingRe ([], js ''## Slide '' @ ds @ 58 # 32 # t, Map.empty) fin"
    unfolding re_at_def fin_def by (simp add: hh[symmetric])
  also have "\<dots> = Some (Y [1 \<mapsto> t])"
    unfolding r using ds(1) dsp
    by (simp add: js_def is_ci_def canon_def isSpace_def rmatch_rep_chr_Suc star_stop f1)
  finally have "re_exec slideHeadingRe h = Some (Y [1 \<mapsto> t])"
    unfolding r re_exec_anchored .
  then show ?thesis unfolding h_def by (simp add: grp_def Y_def)
qed

lemma slideHeading_quiet: "quietLine l \<Longrightarrow> re_exec slideHeadingRe l = None"
  unfolding slideHeadingRe_def seq.simps re_exec_anchored
  by (cases l) (auto simp: re_at_def js_def is_ci_def canon_def quietLine_def split: if_splits)

lemma slideHeading_title_line: "re_exec slideHeadingRe (js ''# '' @ T) = None"
  unfolding slideHeadingRe_def seq.simps re_exec_anchored
  by (simp add: re_at_def js_def is_ci_def canon_def)

lemma anyHeading_title:
  assumes T: "trim T \<noteq> []" "\<forall>x \<in> set T. dot x"
  shows "\<exists>m g. re_exec anyHeadingRe (js ''# '' @ T) = Some m \<and> grp m 1 = Some g \<and> trim g = trim T"
proof -
  define w where "w = takeWhile isSpace T"
  define T' where "T' = dropWhile isSpace T"
  define h where "h = js ''# '' @ T"
  define fin :: "mstate \<Rightarrow> rmatched option" where
    "fin = (\<lambda>(b', a', c'). Some \<lparr>m_pre = rev [], m_text = take (length h - length a') h,
                                  m_post = a', m_caps = c'\<rparr>)"
  define Y where "Y = (\<lambda>caps. \<lparr>m_pre = [], m_text = h, m_post = [], m_caps = caps\<rparr>)"
  define R3 where "R3 = Seq (Grp 1 (plus (Chr dot))) (Eol False)"
  define R2 where "R2 = Seq (plus (Chr isSpace)) R3"
  have TT: "T = w @ T'" by (simp add: w_def T'_def)
  have w: "\<forall>x \<in> set w. isSpace x" unfolding w_def by (metis set_takeWhileD)
  have "\<not> (\<forall>x \<in> set T. isSpace x)" using T(1) by (simp add: trim_eq_Nil)
  then have n: "T' \<noteq> []" by (simp add: T'_def)
  then have sp: "\<not> isSpace (hd T')" unfolding T'_def by (metis hd_dropWhile)
  have d: "\<forall>x \<in> set T'. dot x" using T(2) unfolding T'_def by (metis set_dropWhileD)
  have tr: "trim T' = trim T"
    by (simp add: trim_def trimStart_def T'_def)
  have f3: "rmatch R3 (b, T', c) fin = Some (Y (c(1 \<mapsto> T')))" for b c
    unfolding R3_def
    apply (simp only: rmatch.simps(5) rmatch.simps(8))
    apply (rule plus_span[where u = T' and v = "[]", unfolded append_Nil2])
    apply (rule n)
    using d apply simp
    apply simp
    apply (simp add: fin_def Y_def)
    done
  have f2: "rmatch R2 (b, 32 # w @ T', c) fin = Some (Y (c(1 \<mapsto> T')))" for b c
    unfolding R2_def
    apply (simp only: rmatch.simps(5))
    apply (rule plus_span[where u = "32 # w" and v = T', unfolded append_Cons])
    apply simp
    using w apply (simp add: isSpace_def)
    using sp apply simp
    apply (simp add: f3)
    done
  have r: "anyHeadingRe = Seq (Bol False) (Seq (Rep True 1 (Some 6) (Chr (is_cu 35))) R2)"
    by (simp add: anyHeadingRe_def R2_def R3_def)
  have hh: "h = 35 # 32 # w @ T'" by (simp add: h_def js_def TT)
  have "re_at anyHeadingRe [] h = rmatch anyHeadingRe ([], 35 # 32 # w @ T', Map.empty) fin"
    unfolding re_at_def fin_def by (simp add: hh[symmetric])
  also have "\<dots> = Some (Y [1 \<mapsto> T'])"
    unfolding r by (simp add: rep_hash[unfolded One_nat_def] f2)
  finally have "re_exec anyHeadingRe h = Some (Y [1 \<mapsto> T'])"
    unfolding r re_exec_anchored .
  then show ?thesis unfolding h_def using tr by (simp add: grp_def Y_def)
qed

lemma later_lines:
  "ps_title s \<noteq> [] \<Longrightarrow> \<forall>l \<in> set ls. quietLine l \<Longrightarrow>
   \<exists>s'. sectionLines s ls = Some s' \<and> ps_title s' = ps_title s"
proof (induction ls arbitrary: s)
  case Nil
  show ?case by simp
next
  case (Cons ln ls)
  from Cons.prems have q: "re_exec slideHeadingRe ln = None" by (simp add: slideHeading_quiet)
  have ih: "ps_title s' = ps_title s \<Longrightarrow>
            \<exists>s''. sectionLines s' ls = Some s'' \<and> ps_title s'' = ps_title s" for s'
    using Cons.IH[of s'] Cons.prems by simp
  show ?case
  proof (cases "re_exec ulRe ln")
    case None
    with q Cons.prems(1) show ?thesis by (simp add: ih)
  next
    case (Some m)
    from grp_defined[OF Some, of 1] obtain g where "grp m 1 = Some g" by (auto simp: ulRe_def)
    with q Some Cons.prems(1) show ?thesis by (simp add: ih)
  qed
qed

lemma first_slide_line:
  assumes "t \<noteq> []" "trim t = t" "\<forall>x \<in> set t. dot x"
  shows "sectionLines \<lparr>ps_title = [], ps_body = []\<rparr> (slideHeader n t # ls) =
         sectionLines \<lparr>ps_title = t, ps_body = []\<rparr> ls"
proof -
  from trim_fixed_ends[OF assms(2,1)] have "\<not> isSpace (hd t)" by simp
  from slideHeading_header[OF assms(1) this assms(3), of n] obtain m where
    "re_exec slideHeadingRe (slideHeader n t) = Some m" "grp m 1 = Some t" by blast
  then show ?thesis using assms(2) by simp
qed

lemma first_title_line:
  assumes "trim T \<noteq> []" "\<forall>x \<in> set T. dot x"
  shows "sectionLines \<lparr>ps_title = [], ps_body = []\<rparr> ((js ''# '' @ T) # ls) =
         sectionLines \<lparr>ps_title = trim T, ps_body = []\<rparr> ls"
proof -
  from anyHeading_title[OF assms] obtain m g where
    "re_exec anyHeadingRe (js ''# '' @ T) = Some m" "grp m 1 = Some g" "trim g = trim T" by blast
  then show ?thesis by (simp add: slideHeading_title_line)
qed

lemma parseSection_titled:
  assumes h: "10 \<notin> set h" "h \<noteq> []" "\<not> isSpace (hd h)"
      "\<not> isSpace (last h) \<or> (\<exists>x \<in> set rest. \<not> isSpace x)"
    and q: "\<forall>l \<in> set (splitOn 10 rest). quietLine l"
    and f: "\<And>ls. sectionLines \<lparr>ps_title = [], ps_body = []\<rparr> (h # ls) =
                  sectionLines \<lparr>ps_title = t, ps_body = []\<rparr> ls"
    and t: "t \<noteq> []"
  shows "\<exists>s. parseSection (h @ 10 # rest) = Some [s] \<and> ps_title s = t"
proof -
  have s10: "isSpace 10" by (simp add: isSpace_def)
  have ts: "trimStart (h @ 10 # rest) = h @ 10 # rest"
    using h(2,3) by (intro trimStart_id) simp_all
  have "\<exists>r'. trimEnd (h @ 10 # rest) = h @ r' \<and> (r' = [] \<or> (\<exists>k. r' = 10 # take k rest))"
  proof (cases "\<forall>x \<in> set rest. isSpace x")
    case True
    with h(4) have "\<not> isSpace (last h)" by blast
    with h(2) have "trimEnd h = h" by (rule trimEnd_id)
    with True s10 have "trimEnd (h @ 10 # rest) = h @ []" by (simp add: trimEnd_append)
    then show ?thesis by blast
  next
    case False
    obtain k where k: "trimEnd rest = take k rest" using trimEnd_take by blast
    have "trimEnd ([10] @ rest) = [10] @ trimEnd rest"
      using False by (simp only: trimEnd_append if_False)
    then have "trimEnd (10 # rest) = 10 # take k rest" using k by simp
    moreover have "trimEnd (h @ 10 # rest) = h @ trimEnd (10 # rest)"
      using False by (auto simp: trimEnd_append)
    ultimately show ?thesis by auto
  qed
  then obtain r' where r': "trim (h @ 10 # rest) = h @ r'" "r' = [] \<or> (\<exists>k. r' = 10 # take k rest)"
    unfolding trim_def ts by blast
  have "\<exists>ls. splitOn 10 (h @ r') = h # ls \<and> (\<forall>l \<in> set ls. quietLine l)"
  proof (cases "r' = []")
    case True
    then show ?thesis using h(1) by (simp add: splitOn_no_sep)
  next
    case False
    with r'(2) obtain k where "r' = 10 # take k rest" by blast
    then show ?thesis using h(1) quiet_take[OF q, of k] by (simp add: splitOn_append_sep)
  qed
  then obtain ls where ls: "splitOn 10 (h @ r') = h # ls" "\<forall>l \<in> set ls. quietLine l" by blast
  have "\<not> (\<forall>x \<in> set h. isSpace x)" using h(2,3) by (metis list.set_sel(1))
  then have nb: "trim h \<noteq> []" by (simp add: trim_eq_Nil)
  let ?ls = "filter (\<lambda>l. trim l \<noteq> []) ls"
  have "\<forall>l \<in> set ?ls. quietLine l" using ls(2) by simp
  from later_lines[of "\<lparr>ps_title = t, ps_body = []\<rparr>" ?ls, OF _ this] t obtain s' where
    s': "sectionLines \<lparr>ps_title = t, ps_body = []\<rparr> ?ls = Some s'" "ps_title s' = t" by auto
  show ?thesis
    unfolding parseSection_def r'(1) ls(1) using nb s' t by (simp add: f del: sectionLines.simps)
qed


lemma startsWith_rule_line:
  "startsWith (l @ 10 # q) (js ''---'') = startsWith l (js ''---'')"
proof (cases l)
  case Nil
  then show ?thesis by (simp add: startsWith_def js_def)
next
  case l1: (Cons x xs)
  show ?thesis
  proof (cases xs)
    case Nil
    with l1 show ?thesis by (simp add: startsWith_def js_def)
  next
    case l2: (Cons y ys)
    show ?thesis
    proof (cases ys)
      case Nil
      with l1 l2 show ?thesis by (simp add: startsWith_def js_def)
    next
      case (Cons z zs)
      with l1 l2 show ?thesis by (simp add: startsWith_def js_def)
    qed
  qed
qed

lemma ruleRe_at_none: "\<not> startsWith a (js ''---'') \<Longrightarrow> re_at ruleRe b a = None"
  by (auto simp: ruleRe_def re_at_def js_def startsWith_def is_cu_def split: list.splits)

lemma ruleRe_at_some:
  assumes "rest = [] \<or> hd rest \<noteq> 10" "\<forall>x \<in> set nl. x = 10"
  shows "\<exists>m. re_at ruleRe b (js ''---'' @ nl @ rest) = Some m \<and> m_text m \<noteq> [] \<and> m_post m = rest"
proof -
  let ?a = "js ''---'' @ nl @ rest"
  let ?fin = "\<lambda>(b', a', c'). Some \<lparr>m_pre = rev b, m_text = take (length ?a - length a') ?a,
                                      m_post = a', m_caps = c'\<rparr>"
  have "rmatch (Rep True 0 None (Chr (is_cu 10))) (45 # 45 # 45 # b, nl @ rest, Map.empty) ?fin
          = Some \<lparr>m_pre = rev b, m_text = take (length ?a - length rest) ?a, m_post = rest,
                  m_caps = Map.empty\<rparr>"
    using assms by (intro star_span) (auto simp: is_cu_def)
  then have "re_at ruleRe b ?a
          = Some \<lparr>m_pre = rev b, m_text = take (length ?a - length rest) ?a, m_post = rest,
                  m_caps = Map.empty\<rparr>"
    by (simp add: ruleRe_def re_at_def js_def is_cu_def)
  then show ?thesis by (simp add: js_def)
qed

lemma split_skip_line:
  "ruleFree l \<Longrightarrow>
   split_loop ruleRe b pc (l @ 10 # q) = split_loop ruleRe (10 # rev l @ b) (10 # rev l @ pc) q"
proof (induction l arbitrary: b pc)
  case Nil
  have "\<not> startsWith (10 # q) (js ''---'')" by (simp add: startsWith_def js_def)
  then show ?case by (simp add: ruleRe_at_none)
next
  case (Cons x l)
  from Cons.prems have n: "\<not> startsWith (x # l) (js ''---'')" and r: "ruleFree l"
    by (simp_all add: ruleFree_def)
  from n have "\<not> startsWith ((x # l) @ 10 # q) (js ''---'')"
    using startsWith_rule_line[of "x # l" q] by simp
  then have "re_at ruleRe b (x # l @ 10 # q) = None" by (simp add: ruleRe_at_none)
  then show ?case using Cons.IH[OF r] by simp
qed

lemma split_skip_lines:
  "\<forall>l \<in> set ls. ruleFree l \<Longrightarrow>
   split_loop ruleRe b pc (unlines ls @ q) =
     split_loop ruleRe (rev (unlines ls) @ b) (rev (unlines ls) @ pc) q"
proof (induction ls arbitrary: b pc)
  case Nil
  show ?case by (simp add: unlines_Nil)
next
  case (Cons l ls)
  then have l: "ruleFree l" and ls: "\<forall>l \<in> set ls. ruleFree l" by simp_all
  have "split_loop ruleRe b pc (unlines (l # ls) @ q) =
          split_loop ruleRe b pc (l @ 10 # (unlines ls @ q))" by (simp add: unlines_Cons)
  also have "\<dots> = split_loop ruleRe (10 # rev l @ b) (10 # rev l @ pc) (unlines ls @ q)"
    by (rule split_skip_line[OF l])
  also have "\<dots> = split_loop ruleRe (rev (unlines ls) @ 10 # rev l @ b)
                      (rev (unlines ls) @ 10 # rev l @ pc) q"
    by (rule Cons.IH[OF ls])
  finally show ?case by (simp add: unlines_Cons)
qed

lemma split_at_rule:
  assumes "rest = [] \<or> hd rest \<noteq> 10" "\<forall>x \<in> set nl. x = 10"
  shows "\<exists>b'. split_loop ruleRe b pc (js ''---'' @ nl @ rest) = rev pc # split_loop ruleRe b' [] rest"
proof -
  from ruleRe_at_some[OF assms, of b] obtain m where
    m: "re_at ruleRe b (js ''---'' @ nl @ rest) = Some m" "m_text m \<noteq> []" "m_post m = rest" by blast
  have e: "js ''---'' @ nl @ rest = 45 # (45 # 45 # nl @ rest)" by (simp add: js_def)
  show ?thesis using m unfolding e by auto
qed

lemma split_section:
  assumes "\<forall>l \<in> set ls. ruleFree l" "rest = [] \<or> hd rest \<noteq> 10" "\<forall>x \<in> set nl. x = 10"
  shows "\<exists>b'. split_loop ruleRe b [] (unlines ls @ js ''---'' @ nl @ rest) =
               unlines ls # split_loop ruleRe b' [] rest"
proof -
  from split_at_rule[OF assms(2,3), of "rev (unlines ls) @ b" "rev (unlines ls) @ []"]
  obtain b' where "split_loop ruleRe (rev (unlines ls) @ b) (rev (unlines ls) @ [])
                     (js ''---'' @ nl @ rest) = rev (rev (unlines ls) @ []) # split_loop ruleRe b' [] rest"
    by blast
  then show ?thesis by (auto simp: split_skip_lines[OF assms(1)])
qed

lemma split_final:
  assumes "\<forall>l \<in> set ls. ruleFree l"
  shows "split_loop ruleRe b [] (unlines ls) = [unlines ls]"
  using split_skip_lines[OF assms, of b "[]" "[]"] by simp

lemma ruleFree_Nil: "ruleFree []"
  by (simp add: ruleFree_def js_def)

lemma ruleFree_prefix: "45 \<notin> set u \<Longrightarrow> ruleFree (u @ v) = ruleFree v"
  by (induction u) (auto simp: ruleFree_def startsWith_def js_def)

lemma ruleFree_no_dash: "45 \<notin> set l \<Longrightarrow> ruleFree l"
  using ruleFree_prefix[of l "[]"] by (simp add: ruleFree_Nil)

lemma digit_set: "x \<in> set (digitsOf n) \<Longrightarrow> 48 \<le> x \<and> x \<le> 57"
  using digitsOf_digits[of n] by (auto simp: isDigit_def)

lemma ruleFree_header: "t \<noteq> [] \<Longrightarrow> ruleFree (slideHeader n t) = ruleFree t"
proof -
  assume t: "t \<noteq> []"
  have "45 \<notin> set (js ''## Slide '' @ digitsOf n @ js '': '')"
    using digit_set[of 45 n] by (auto simp: js_def)
  from ruleFree_prefix[OF this, of t] show ?thesis using t by (simp add: slideHeader_def)
qed

lemma ruleFree_bullet: "ruleFree (js ''- '' @ item) = ruleFree item"
  by (simp add: ruleFree_def startsWith_def js_def)

lemma ruleFree_title: "ruleFree (js ''# '' @ T) = ruleFree T"
  by (rule ruleFree_prefix) (simp add: js_def)

lemma ruleFree_count: "ruleFree (js ''*'' @ digitsOf n @ js '' slides*'')"
  using digit_set[of 45 n] by (intro ruleFree_no_dash) (auto simp: js_def)

lemma bodyLines_ruleFree:
  "\<forall>item \<in> set b. ruleFree item \<Longrightarrow> \<forall>l \<in> set (bodyLines b). ruleFree l"
  by (induction b) (auto simp: ruleFree_bullet)

lemma bodyLines_no_newline:
  "\<forall>item \<in> set b. 10 \<notin> set item \<Longrightarrow> \<forall>l \<in> set (bodyLines b). 10 \<notin> set l"
  by (induction b) (auto simp: js_def)

lemma bodyLines_quiet: "\<forall>l \<in> set (bodyLines b). quietLine l"
proof (induction b)
  case Nil
  show ?case by simp
next
  case (Cons item b)
  have "startsWith item (js ''|'') \<Longrightarrow> quietLine item"
    by (cases item) (auto simp: startsWith_def js_def quietLine_def)
  moreover have "quietLine (js ''- '' @ item)" by (simp add: quietLine_def js_def)
  ultimately show ?case using Cons by auto
qed


lemma slideLines_eq:
  "sc_notes c = [] \<Longrightarrow>
   slideLines n i c = slideSection i c @ [[]] @ (if Suc i < n then [js ''---'', []] else [])"
  by (auto simp: slideLines_def slideSection_def)

lemma elementStep_asExtracted: "asExtracted (fst st) \<Longrightarrow> asExtracted (fst (elementStep st e))"
  by (cases st)
     (auto simp: elementStep_def asExtracted_def Let_def trim_trim split: option.splits prod.splits if_splits)

lemma foldl_asExtracted: "asExtracted (fst st) \<Longrightarrow> asExtracted (fst (foldl elementStep st es))"
  by (induction es arbitrary: st) (simp_all add: elementStep_asExtracted)

lemma extractSlideContent_asExtracted: "asExtracted (extractSlideContent slide)"
proof (cases "pageElements slide")
  case None
  then show ?thesis by (simp add: extractSlideContent_def asExtracted_def trim_eq_Nil)
next
  case (Some es)
  have "asExtracted (fst (\<lparr>sc_title = [], sc_body = [], sc_notes = []\<rparr>, True))"
    by (simp add: asExtracted_def trim_eq_Nil)
  from foldl_asExtracted[OF this, of es] show ?thesis using Some by (simp add: extractSlideContent_def)
qed

lemma slideHeader_shape:
  "t \<noteq> [] \<Longrightarrow> slideHeader n t = 35 # 35 # js '' Slide '' @ digitsOf n @ js '': '' @ t"
  by (simp add: slideHeader_def js_def)

lemma slideHeader_hd: "slideHeader n t \<noteq> [] \<and> hd (slideHeader n t) = 35"
  by (simp add: slideHeader_def js_def)

lemma slideSection_ruleFree:
  assumes "plainSlide c" "\<forall>l \<in> set extra. l = []"
  shows "\<forall>l \<in> set (slideSection i c @ extra). ruleFree l"
  using assms bodyLines_ruleFree[of "sc_body c"]
  by (auto simp: slideSection_def plainSlide_def ruleFree_header ruleFree_Nil)

lemma piece_parse:
  assumes c: "plainSlide c" "asExtracted c" and e: "\<forall>l \<in> set extra. l = []"
  shows "\<exists>s. parseSection (unlines (slideSection i c @ extra)) = Some [s] \<and> ps_title s = sc_title c"
proof -
  let ?t = "sc_title c"
  let ?h = "slideHeader (i + 1) ?t"
  let ?tail = "(if sc_body c \<noteq> [] then [] # bodyLines (sc_body c) else []) @ extra"
  from c have t: "?t \<noteq> []" "trim ?t = ?t" "\<forall>x \<in> set ?t. dot x"
    by (simp_all add: plainSlide_def asExtracted_def)
  from trim_fixed_ends[OF t(2,1)] have ends: "\<not> isSpace (last ?t)" by simp
  have sh: "?h = 35 # 35 # js '' Slide '' @ digitsOf (i + 1) @ js '': '' @ ?t"
    using t(1) by (rule slideHeader_shape)
  have t10: "10 \<notin> set ?t" using t(3) by (auto simp: dot_def isLineTerminator_def)
  have h1: "10 \<notin> set ?h" unfolding sh using t10 digit_set[of 10 "i + 1"] by (auto simp: js_def)
  have h2: "?h \<noteq> []" "\<not> isSpace (hd ?h)" unfolding sh by (simp_all add: isSpace_def)
  have "last ?h = last ?t" unfolding sh using t(1) by simp
  then have h3: "\<not> isSpace (last ?h) \<or> (\<exists>x \<in> set (unlines ?tail). \<not> isSpace x)"
    using ends by simp
  have n10: "\<forall>l \<in> set ?tail. 10 \<notin> set l"
    using c(1) e bodyLines_no_newline[of "sc_body c"] by (auto simp: plainSlide_def)
  have "\<forall>l \<in> set (?tail @ [[]]). quietLine l"
    using e bodyLines_quiet[of "sc_body c"] by (auto simp: quietLine_def)
  then have q: "\<forall>l \<in> set (splitOn 10 (unlines ?tail)). quietLine l"
    by (simp only: splitOn_unlines[OF n10])
  have f: "\<And>ls. sectionLines \<lparr>ps_title = [], ps_body = []\<rparr> (?h # ls) =
                  sectionLines \<lparr>ps_title = ?t, ps_body = []\<rparr> ls"
    by (rule first_slide_line[OF t])
  have "unlines (slideSection i c @ extra) = ?h @ 10 # unlines ?tail"
    by (simp add: slideSection_def unlines_Cons)
  with parseSection_titled[OF h1 h2 h3 q f t(1)] show ?thesis by simp
qed

lemma preamble_parse:
  assumes T: "trim T \<noteq> []" "\<forall>x \<in> set T. dot x"
  shows "\<exists>s. parseSection (unlines [js ''# '' @ T, [], js ''*'' @ digitsOf n @ js '' slides*'', []])
               = Some [s] \<and> ps_title s = trim T"
proof -
  let ?h = "js ''# '' @ T"
  let ?cnt = "js ''*'' @ digitsOf n @ js '' slides*''"
  let ?tail = "[[], ?cnt, []]"
  have t10: "10 \<notin> set T" using T(2) by (auto simp: dot_def isLineTerminator_def)
  then have h1: "10 \<notin> set ?h" by (simp add: js_def)
  have h2: "?h \<noteq> []" "\<not> isSpace (hd ?h)" by (simp_all add: js_def isSpace_def)
  have "42 \<in> set (unlines ?tail)" by (simp add: unlines_def js_def)
  moreover have "\<not> isSpace 42" by (simp add: isSpace_def)
  ultimately have h3: "\<not> isSpace (last ?h) \<or> (\<exists>x \<in> set (unlines ?tail). \<not> isSpace x)" by blast
  have n10: "\<forall>l \<in> set ?tail. 10 \<notin> set l" using digit_set[of 10 n] by (auto simp: js_def)
  have "\<forall>l \<in> set (?tail @ [[]]). quietLine l" by (simp add: quietLine_def js_def)
  then have q: "\<forall>l \<in> set (splitOn 10 (unlines ?tail)). quietLine l"
    by (simp only: splitOn_unlines[OF n10])
  have f: "\<And>ls. sectionLines \<lparr>ps_title = [], ps_body = []\<rparr> (?h # ls) =
                  sectionLines \<lparr>ps_title = trim T, ps_body = []\<rparr> ls"
    by (rule first_title_line[OF T])
  have "unlines [?h, [], ?cnt, []] = ?h @ 10 # unlines ?tail" by (simp add: unlines_Cons)
  with parseSection_titled[OF h1 h2 h3 q f T(1)] show ?thesis by simp
qed

lemma allSlideLines_start:
  "sc_notes c = [] \<Longrightarrow>
   \<exists>z. butlast (unlines (allSlideLines n i (c # cs))) = 35 # z"
proof -
  assume "sc_notes c = []"
  then obtain ls where "allSlideLines n i (c # cs) = slideHeader (i + 1) (sc_title c) # [] # ls"
    by (simp add: slideLines_def)
  then have "unlines (allSlideLines n i (c # cs))
               = 35 # (drop 1 (slideHeader (i + 1) (sc_title c)) @ 10 # 10 # unlines ls)"
    by (simp add: unlines_Cons slideHeader_def js_def)
  then show ?thesis by simp
qed

lemma parseSection_empty: "parseSection [] = Some []"
proof -
  have "trim [] = []" by (simp add: trim_def trimStart_def trimEnd_def)
  then show ?thesis by (simp add: parseSection_def)
qed

lemma slides_parse:
  assumes "\<forall>c \<in> set cs. plainSlide c \<and> asExtracted c" "cs \<noteq> []"
  shows "\<exists>ps. parseSections (split_loop ruleRe b []
                 (butlast (unlines (allSlideLines (i + length cs) i cs)))) = Some ps
              \<and> map ps_title ps = map sc_title cs"
  using assms
proof (induction cs arbitrary: i b)
  case Nil
  then show ?case by simp
next
  case (Cons c cs)
  from Cons.prems have c: "plainSlide c" "asExtracted c" by simp_all
  then have nts: "sc_notes c = []" by (simp add: asExtracted_def)
  let ?n = "i + length (c # cs)"
  let ?S = "slideSection i c"
  show ?case
  proof (cases cs)
    case Nil
    have "allSlideLines ?n i (c # cs) = ?S @ [[]]" by (simp add: Nil slideLines_eq nts)
    then have tx: "butlast (unlines (allSlideLines ?n i (c # cs))) = unlines ?S"
      by (simp add: unlines_append unlines_Cons unlines_Nil)
    have rf: "\<forall>l \<in> set (?S @ []). ruleFree l" by (rule slideSection_ruleFree[OF c(1)]) simp
    from piece_parse[OF c, of "[]" i] obtain s where
      s: "parseSection (unlines ?S) = Some [s]" "ps_title s = sc_title c" by auto
    have "split_loop ruleRe b [] (unlines ?S) = [unlines ?S]"
      using rf by (intro split_final) simp
    then show ?thesis unfolding tx using s Nil by simp
  next
    case (Cons c' cs')
    let ?X = "unlines (allSlideLines ?n (Suc i) cs)"
    have c': "sc_notes c' = []" using Cons.prems Cons by (simp add: asExtracted_def)
    from allSlideLines_start[OF c', of ?n "Suc i" cs'] obtain z where
      z: "butlast ?X = 35 # z" unfolding Cons by blast
    then have xn: "?X \<noteq> []" by auto
    have "allSlideLines ?n i (c # cs) = (?S @ [[]]) @ [js ''---'', []] @ allSlideLines ?n (Suc i) cs"
      by (simp add: Cons slideLines_eq nts)
    then have "unlines (allSlideLines ?n i (c # cs)) = unlines (?S @ [[]]) @ js ''---'' @ [10, 10] @ ?X"
      by (simp add: unlines_append unlines_Cons unlines_Nil)
    then have tx: "butlast (unlines (allSlideLines ?n i (c # cs)))
                       = unlines (?S @ [[]]) @ js ''---'' @ [10, 10] @ butlast ?X"
      using xn by (simp add: butlast_append)
    have rf: "\<forall>l \<in> set (?S @ [[]]). ruleFree l" by (rule slideSection_ruleFree[OF c(1)]) simp
    from split_section[OF rf, of "butlast ?X" "[10, 10]" b] z obtain b' where
      sp: "split_loop ruleRe b [] (unlines (?S @ [[]]) @ js ''---'' @ [10, 10] @ butlast ?X)
             = unlines (?S @ [[]]) # split_loop ruleRe b' [] (butlast ?X)"
      by auto
    from piece_parse[OF c, of "[[]]" i] obtain s where
      s: "parseSection (unlines (?S @ [[]])) = Some [s]" "ps_title s = sc_title c" by auto
    have n: "?n = Suc i + length cs" by simp
    from Cons.IH[where i = "Suc i" and b = b'] Cons.prems Cons obtain ps where
      ps: "parseSections (split_loop ruleRe b' [] (butlast ?X)) = Some ps"
          "map ps_title ps = map sc_title cs"
      unfolding n by auto
    show ?thesis unfolding tx sp using s ps by simp
  qed
qed

lemma render_parse:
  assumes T: "trim T \<noteq> []" "\<forall>x \<in> set T. dot x" "ruleFree T"
    and cs: "\<forall>c \<in> set cs. plainSlide c \<and> asExtracted c"
  shows "\<exists>ps. parseMarkdownToSlides (renderSlides T cs) = Some ps
              \<and> map ps_title ps = trim T # map sc_title cs"
proof -
  let ?pre = "[js ''# '' @ T, [], js ''*'' @ digitsOf (length cs) @ js '' slides*'', []]"
  let ?X = "unlines (allSlideLines (length cs) 0 cs)"
  have rf: "\<forall>l \<in> set ?pre. ruleFree l"
    using T(3) by (simp add: ruleFree_title ruleFree_Nil ruleFree_count)
  from preamble_parse[OF T(1,2), of "length cs"] obtain s0 where
    s0: "parseSection (unlines ?pre) = Some [s0]" "ps_title s0 = trim T" by blast
  have "renderSlides T cs = butlast (unlines (?pre @ [js ''---'', []] @ allSlideLines (length cs) 0 cs))"
    unfolding renderSlides_def by (subst join_unlines) simp_all
  then have md: "renderSlides T cs = butlast (unlines ?pre @ js ''---'' @ [10, 10] @ ?X)"
    by (simp add: unlines_append unlines_Cons unlines_Nil)
  show ?thesis
  proof (cases cs)
    case Nil
    have m: "renderSlides T cs = unlines ?pre @ js ''---'' @ [10] @ []"
      unfolding md by (simp add: Nil unlines_Nil butlast_append js_def)
    from split_section[OF rf, of "[]" "[10]" "[]"] obtain b' where
      "split_loop ruleRe [] [] (unlines ?pre @ js ''---'' @ [10] @ []) = unlines ?pre # split_loop ruleRe b' [] []"
      by auto
    then have "re_split ruleRe (renderSlides T cs) = [unlines ?pre, []]"
      unfolding m by (simp add: re_split_def js_def)
    then show ?thesis using s0 Nil by (simp add: parseMarkdownToSlides_def parseSection_empty)
  next
    case (Cons c cs')
    then have c: "sc_notes c = []" using cs by (simp add: asExtracted_def)
    from allSlideLines_start[OF c, of "length cs" 0 cs'] obtain z where
      z: "butlast ?X = 35 # z" unfolding Cons by blast
    then have xn: "?X \<noteq> []" by auto
    have m: "renderSlides T cs = unlines ?pre @ js ''---'' @ [10, 10] @ butlast ?X"
      unfolding md using xn by (simp add: butlast_append js_def)
    from split_section[OF rf, of "butlast ?X" "[10, 10]" "[]"] z obtain b' where
      sp: "split_loop ruleRe [] [] (unlines ?pre @ js ''---'' @ [10, 10] @ butlast ?X)
             = unlines ?pre # split_loop ruleRe b' [] (butlast ?X)"
      by auto
    have ne: "cs \<noteq> []" using Cons by simp
    from slides_parse[OF cs ne, of b' 0] obtain ps where
      ps: "parseSections (split_loop ruleRe b' [] (butlast ?X)) = Some ps"
          "map ps_title ps = map sc_title cs"
      by auto
    have "re_split ruleRe (renderSlides T cs) = unlines ?pre # split_loop ruleRe b' [] (butlast ?X)"
      unfolding m re_split_def using sp by (simp add: js_def)
    then show ?thesis using s0 ps by (simp add: parseMarkdownToSlides_def)
  qed
qed


lemmas slides_ev = toMarkdown_def renderSlides_def slideLines_def slideHeader_def
  extractSlideContent_def elementStep_def extractTextFromContent_def runText_def
  parseMarkdownToSlides_def parseSection_def ruleRe_def slideHeadingRe_def anyHeadingRe_def ulRe_def
  digitsOf.simps

text \<open>
  C3 as stated fails. The presentation below has the title \<open>T\<close> and one slide, with the
  title \<open>A\<close> and the bullet \<open>x\<close>. The lines \<open># T\<close> and \<open>*1 slides*\<close> that
  \<open>toMarkdown\<close> writes before the first rule are a section of their own for
  \<open>parseMarkdownToSlides\<close>, which reads it as a slide titled \<open>T\<close>: two slides come back,
  and the first has the title of the presentation, not of the first slide.
\<close>

theorem slides_round_trip_fails:
  "parseMarkdownToSlides (toMarkdown
     \<lparr>p_title = js ''T'', p_slides =
       [\<lparr>pageElements = Some
          [\<lparr>pe_shape = Some \<lparr>sh_text = Some \<lparr>textElements = Some [\<lparr>textRun = Some \<lparr>tr_content = js ''A'', tr_style = None\<rparr>\<rparr>]\<rparr>\<rparr>,
            pe_image = None, pe_table = None\<rparr>,
           \<lparr>pe_shape = Some \<lparr>sh_text = Some \<lparr>textElements = Some [\<lparr>textRun = Some \<lparr>tr_content = js ''x'', tr_style = None\<rparr>\<rparr>]\<rparr>\<rparr>,
            pe_image = None, pe_table = None\<rparr>]\<rparr>]\<rparr>)
     = Some [\<lparr>ps_title = js ''T'', ps_body = []\<rparr>, \<lparr>ps_title = js ''A'', ps_body = [js ''x'']\<rparr>]
   \<and> map (\<lambda>slide. sc_title (extractSlideContent slide)) (p_slides
     \<lparr>p_title = js ''T'', p_slides =
       [\<lparr>pageElements = Some
          [\<lparr>pe_shape = Some \<lparr>sh_text = Some \<lparr>textElements = Some [\<lparr>textRun = Some \<lparr>tr_content = js ''A'', tr_style = None\<rparr>\<rparr>]\<rparr>\<rparr>,
            pe_image = None, pe_table = None\<rparr>,
           \<lparr>pe_shape = Some \<lparr>sh_text = Some \<lparr>textElements = Some [\<lparr>textRun = Some \<lparr>tr_content = js ''x'', tr_style = None\<rparr>\<rparr>]\<rparr>\<rparr>,
            pe_image = None, pe_table = None\<rparr>]\<rparr>]\<rparr>) = [js ''A'']"
  by (simp add: slides_ev str_ev)

text \<open>
  C3, amended. When the title of the presentation is not blank and has no line terminator
  and no three dashes in a row, and every slide yields a non-empty title without line
  terminator and body items without newline, all without three dashes in a row, then
  \<open>parseMarkdownToSlides (toMarkdown p)\<close> returns one slide more than \<open>p\<close> has: the first
  carries the trimmed title of the presentation, and the one after it at position
  \<open>i\<close> the title of slide \<open>i\<close> of \<open>p\<close>.
\<close>

theorem slides_round_trip:
  assumes "trim (p_title p) \<noteq> []" "\<forall>x \<in> set (p_title p). dot x" "ruleFree (p_title p)"
    and "\<forall>slide \<in> set (p_slides p). plainSlide (extractSlideContent slide)"
  shows "\<exists>ps. parseMarkdownToSlides (toMarkdown p) = Some ps
           \<and> length ps = length (p_slides p) + 1
           \<and> map ps_title ps
               = trim (p_title p) # map (\<lambda>slide. sc_title (extractSlideContent slide)) (p_slides p)"
proof -
  let ?cs = "map extractSlideContent (p_slides p)"
  have "\<forall>c \<in> set ?cs. plainSlide c \<and> asExtracted c"
    using assms(4) by (auto simp: extractSlideContent_asExtracted)
  then have "\<exists>ps. parseMarkdownToSlides (toMarkdown p) = Some ps
                \<and> map ps_title ps = trim (p_title p) # map sc_title ?cs"
    unfolding toMarkdown_def by (rule render_parse[OF assms(1-3)])
  then obtain ps where
    ps: "parseMarkdownToSlides (toMarkdown p) = Some ps"
        "map ps_title ps = trim (p_title p) # map sc_title ?cs"
    by (elim exE conjE)
  from ps(2) have "length (map ps_title ps) = length (trim (p_title p) # map sc_title ?cs)" by simp
  then have "length ps = length (p_slides p) + 1" by simp
  with ps show ?thesis by (simp add: comp_def)
qed

theorem slides_round_trip_witness:
  "\<exists>ps. parseMarkdownToSlides (toMarkdown
     \<lparr>p_title = js ''T'', p_slides =
       [\<lparr>pageElements = Some
          [\<lparr>pe_shape = Some \<lparr>sh_text = Some \<lparr>textElements = Some [\<lparr>textRun = Some \<lparr>tr_content = js ''A'', tr_style = None\<rparr>\<rparr>]\<rparr>\<rparr>,
            pe_image = None, pe_table = None\<rparr>,
           \<lparr>pe_shape = Some \<lparr>sh_text = Some \<lparr>textElements = Some [\<lparr>textRun = Some \<lparr>tr_content = js ''x'', tr_style = None\<rparr>\<rparr>]\<rparr>\<rparr>,
            pe_image = None, pe_table = None\<rparr>]\<rparr>,
        \<lparr>pageElements = Some
          [\<lparr>pe_shape = Some \<lparr>sh_text = Some \<lparr>textElements = Some [\<lparr>textRun = Some \<lparr>tr_content = js ''B'', tr_style = None\<rparr>\<rparr>]\<rparr>\<rparr>,
            pe_image = None, pe_table = None\<rparr>]\<rparr>]\<rparr>) = Some ps
     \<and> length ps = 3 \<and> map ps_title ps = [js ''T'', js ''A'', js ''B'']"
proof -
  let ?p = "\<lparr>p_title = js ''T'', p_slides =
       [\<lparr>pageElements = Some
          [\<lparr>pe_shape = Some \<lparr>sh_text = Some \<lparr>textElements = Some [\<lparr>textRun = Some \<lparr>tr_content = js ''A'', tr_style = None\<rparr>\<rparr>]\<rparr>\<rparr>,
            pe_image = None, pe_table = None\<rparr>,
           \<lparr>pe_shape = Some \<lparr>sh_text = Some \<lparr>textElements = Some [\<lparr>textRun = Some \<lparr>tr_content = js ''x'', tr_style = None\<rparr>\<rparr>]\<rparr>\<rparr>,
            pe_image = None, pe_table = None\<rparr>]\<rparr>,
        \<lparr>pageElements = Some
          [\<lparr>pe_shape = Some \<lparr>sh_text = Some \<lparr>textElements = Some [\<lparr>textRun = Some \<lparr>tr_content = js ''B'', tr_style = None\<rparr>\<rparr>]\<rparr>\<rparr>,
            pe_image = None, pe_table = None\<rparr>]\<rparr>]\<rparr>"
  have h: "trim (p_title ?p) \<noteq> []" "\<forall>x \<in> set (p_title ?p). dot x" "ruleFree (p_title ?p)"
    by (simp_all add: ruleFree_def str_ev)
  have s: "\<forall>slide \<in> set (p_slides ?p). plainSlide (extractSlideContent slide)"
    by (simp add: plainSlide_def ruleFree_def slides_ev str_ev)
  have e: "trim (p_title ?p) # map (\<lambda>slide. sc_title (extractSlideContent slide)) (p_slides ?p)
             = [js ''T'', js ''A'', js ''B'']"
    by (simp add: slides_ev str_ev)
  from slides_round_trip[OF h s] show ?thesis unfolding e by auto
qed

end
